theory Spec2Isabelle
  imports Main "HOL-Library.Word"
begin

unbundle bit_operations_syntax

chapter \<open>rcutils: containers, error state, logger severities, fault injection\<close>

text \<open>
  A shallow embedding of the parts of rcutils that the specification's claims are about.
  Every definition is a transcription of one C function and carries its name; the text
  before it says which file it comes from and what was abstracted.

  Conventions. A byte is a \<^typ>\<open>char\<close>; the terminating zero of a C string is
  \<^term>\<open>CHR 0x00\<close>. \<open>size_t\<close>, \<open>uint64_t\<close> and \<open>int_least64_t\<close> are
  \<^typ>\<open>64 word\<close> where the code computes with values it is handed by its caller; signed
  comparisons go through \<^const>\<open>sint\<close>. The return codes are the ones of
  \<open>rcutils/types/rcutils_ret.h\<close>.
\<close>

datatype rcutils_ret_t =
    RCUTILS_RET_OK
  | RCUTILS_RET_ERROR
  | RCUTILS_RET_BAD_ALLOC
  | RCUTILS_RET_INVALID_ARGUMENT
  | RCUTILS_RET_NOT_FOUND
  | RCUTILS_RET_NOT_INITIALIZED
  | RCUTILS_RET_HASH_MAP_NO_MORE_ENTRIES
  | RCUTILS_RET_LOGGING_SEVERITY_MAP_INVALID

section \<open>Fault injection (src/testing/fault\_injection.c)\<close>

text \<open>
  The process-wide counter \<open>g_rcutils_fault_injection_count\<close> is an
  \<open>atomic_int_least64_t\<close>; the model is the sequential semantics of its operations on
  one value. \<open>RCUTILS_ENABLE_FAULT_INJECTION\<close> is a compile-time switch, passed here as
  the boolean \<open>enabled\<close>.
\<close>

type_synonym int_least64_t = "64 word"

definition RCUTILS_FAULT_INJECTION_NEVER_FAIL :: int_least64_t where
  "RCUTILS_FAULT_INJECTION_NEVER_FAIL = - 1"

definition RCUTILS_FAULT_INJECTION_FAIL_NOW :: int_least64_t where
  "RCUTILS_FAULT_INJECTION_FAIL_NOW = 0"

definition rcutils_fault_injection_set_count :: "int_least64_t \<Rightarrow> int_least64_t \<Rightarrow> int_least64_t" where
  "rcutils_fault_injection_set_count n g = n"

definition rcutils_fault_injection_get_count :: "int_least64_t \<Rightarrow> int_least64_t" where
  "rcutils_fault_injection_get_count g = g"

definition rcutils_fault_injection_is_test_complete :: "bool \<Rightarrow> int_least64_t \<Rightarrow> bool" where
  "rcutils_fault_injection_is_test_complete enabled g =
     (if \<not> enabled then True
      else sint (rcutils_fault_injection_get_count g) > sint RCUTILS_FAULT_INJECTION_NEVER_FAIL)"

text \<open>
  \<open>_rcutils_fault_injection_maybe_fail\<close>: with a single thread the compare-exchange
  succeeds at once, so the loop body runs one time. The result is the value returned and
  the new counter.
\<close>

definition rcutils_fault_injection_maybe_fail :: "int_least64_t \<Rightarrow> int_least64_t \<times> int_least64_t" where
  "rcutils_fault_injection_maybe_fail g =
     (let current_count = rcutils_fault_injection_get_count g in
      if sint current_count \<le> sint RCUTILS_FAULT_INJECTION_NEVER_FAIL then (current_count, g)
      else (current_count, current_count - 1))"

section \<open>C strings\<close>

text \<open>
  A C string argument is the sequence of bytes found at the pointer; the string it denotes
  ends before the first zero byte (or with the sequence, when it holds no zero).
  \<open>strcmp\<close> and \<open>strncmp\<close> are only ever tested against zero in the code modelled
  here, so they are given as equality tests.
\<close>

definition cstr :: "string \<Rightarrow> string" where
  "cstr s = takeWhile (\<lambda>c. c \<noteq> CHR 0x00) s"

definition strlen :: "string \<Rightarrow> nat" where
  "strlen s = length (cstr s)"

definition strnlen :: "string \<Rightarrow> nat \<Rightarrow> nat" where
  "strnlen s maxlen = min (strlen s) maxlen"

definition strncmp_eq :: "string \<Rightarrow> string \<Rightarrow> nat \<Rightarrow> bool" where
  "strncmp_eq s1 s2 n = (take n (cstr s1) = take n (cstr s2))"

section \<open>Error handling (src/error\_handling\_helpers.h, src/error\_handling.c)\<close>

text \<open>
  The error state of one thread. The fixed-size arrays \<open>char message[768]\<close>,
  \<open>char file[229]\<close> and \<open>char str[1024]\<close> are represented by the C string they hold;
  their sizes appear as the \<open>dst_size\<close> argument of \<open>__rcutils_copy_string\<close>. The field
  \<open>file\<close> is named \<open>file_str\<close> here. Messages written to \<open>stderr\<close> are left out.
\<close>

record rcutils_error_state_t =
  message :: string
  file_str :: string
  line_number :: "64 word"

record error_handling_tls =
  gtls_rcutils_error_state :: rcutils_error_state_t
  gtls_rcutils_error_string_is_formatted :: bool
  gtls_rcutils_error_string :: string
  gtls_rcutils_error_is_set :: bool

text \<open>
  \<open>__rcutils_copy_string(dst, dst_size, src)\<close>: the bytes stored at \<open>dst\<close> before the
  terminating zero, and the number of bytes written.
\<close>

definition rcutils_copy_string :: "nat \<Rightarrow> string \<Rightarrow> string \<times> nat" where
  "rcutils_copy_string dst_size src =
     (let src_length = strlen src;
          size_to_copy = (if src_length \<ge> dst_size then dst_size - 1 else src_length)
      in (take size_to_copy src, size_to_copy))"

text \<open>\<open>__rcutils_reverse_str\<close>: the loop that swaps the characters at \<open>i\<close> and \<open>j\<close>.\<close>

function rcutils_reverse_str_loop :: "nat \<Rightarrow> nat \<Rightarrow> string \<Rightarrow> string" where
  "rcutils_reverse_str_loop i j string_in =
     (if i < j
      then rcutils_reverse_str_loop (i + 1) (j - 1)
             (string_in[i := string_in ! j, j := string_in ! i])
      else string_in)"
  by pat_completeness auto
termination
  by (relation "measure (\<lambda>(i, j, s). j - i)") auto

definition rcutils_reverse_str :: "string \<Rightarrow> nat \<Rightarrow> string" where
  "rcutils_reverse_str string_in string_len =
     (if string_len = 0 then string_in
      else rcutils_reverse_str_loop 0 (string_len - 1) string_in)"

text \<open>
  \<open>__rcutils_convert_uint64_t_into_c_str\<close>: the \<open>while\<close> loop emits the digits of
  \<open>number\<close>, least significant first; the buffer is then reversed in place.
\<close>

function rcutils_convert_loop :: "64 word \<Rightarrow> string" where
  "rcutils_convert_loop number =
     (if number = 0 then []
      else char_of (unat (number mod 10 + 48)) # rcutils_convert_loop (number div 10))"
  by pat_completeness auto
termination
  by (relation "measure unat") (auto simp: unat_div word_neq_0_conv unat_gt_0 intro!: div_less_dividend)

definition rcutils_convert_uint64_t_into_c_str :: "64 word \<Rightarrow> string" where
  "rcutils_convert_uint64_t_into_c_str number =
     (if number = 0 then ''0''
      else (let buffer = rcutils_convert_loop number
            in rcutils_reverse_str buffer (strnlen buffer 21)))"

text \<open>
  \<open>__rcutils_format_error_string\<close>: five copies into \<open>error_string->str\<close>, each at the
  offset the previous one reached, with \<open>bytes_left\<close> counted down.
\<close>

definition rcutils_format_error_string :: "rcutils_error_state_t \<Rightarrow> string" where
  "rcutils_format_error_string error_state =
     (let format_1 = '', at '';
          format_2 = '':'';
          bytes_left = 1024;
          (s1, written) = rcutils_copy_string bytes_left (message error_state);
          bytes_left = bytes_left - written;
          (s2, written) = rcutils_copy_string bytes_left format_1;
          bytes_left = bytes_left - written;
          (s3, written) = rcutils_copy_string bytes_left (file_str error_state);
          bytes_left = bytes_left - written;
          (s4, written) = rcutils_copy_string bytes_left format_2;
          bytes_left = bytes_left - written;
          line_number_buffer = rcutils_convert_uint64_t_into_c_str (line_number error_state);
          (s5, written) = rcutils_copy_string bytes_left line_number_buffer
      in s1 @ s2 @ s3 @ s4 @ s5)"

text \<open>\<open>rcutils_get_error_string\<close> returns the string and caches it in the thread's state.\<close>

definition rcutils_get_error_string :: "error_handling_tls \<Rightarrow> string \<times> error_handling_tls" where
  "rcutils_get_error_string tls =
     (if \<not> gtls_rcutils_error_is_set tls then (''error not set'', tls)
      else if \<not> gtls_rcutils_error_string_is_formatted tls
      then (let tls' = tls\<lparr>gtls_rcutils_error_string :=
                               rcutils_format_error_string (gtls_rcutils_error_state tls),
                            gtls_rcutils_error_string_is_formatted := True\<rparr>
            in (gtls_rcutils_error_string tls', tls'))
      else (gtls_rcutils_error_string tls, tls))"

text \<open>
  \<open>rcutils_set_error_state\<close>. A null \<open>error_string\<close> or \<open>file\<close> is \<open>None\<close>. When an
  error is already set and the new message differs from the old ones, the code formats a
  warning, which calls \<open>rcutils_get_error_string\<close> on the old state; that call is kept
  because it writes the thread's cache. \<open>__same_string\<close> compares the pointers first and
  then calls \<open>strncmp\<close>; equal pointers hold equal strings, so the test is \<open>strncmp\<close>'s.
\<close>

definition rcutils_set_error_state ::
  "string option \<Rightarrow> string option \<Rightarrow> 64 word \<Rightarrow> error_handling_tls \<Rightarrow> error_handling_tls" where
  "rcutils_set_error_state error_string file_name line tls =
     (case error_string of None \<Rightarrow> tls
      | Some es \<Rightarrow>
     (case file_name of None \<Rightarrow> tls
      | Some fl \<Rightarrow>
        (let error_state = \<lparr>message = fst (rcutils_copy_string 768 es),
                              file_str = fst (rcutils_copy_string 229 fl),
                              line_number = line\<rparr>;
             characters_to_compare = strnlen es 1024;
             tls1 = (if gtls_rcutils_error_is_set tls \<and>
                        \<not> strncmp_eq es (gtls_rcutils_error_string tls) characters_to_compare \<and>
                        \<not> strncmp_eq es (message (gtls_rcutils_error_state tls)) characters_to_compare
                     then snd (rcutils_get_error_string tls) else tls)
         in tls1\<lparr>gtls_rcutils_error_state := error_state,
                  gtls_rcutils_error_string_is_formatted := False,
                  gtls_rcutils_error_string := [],
                  gtls_rcutils_error_is_set := True\<rparr>)))"

text \<open>
  \<open>rcutils_reset_error\<close>, and the thread-local variables as their initialisers leave
  them when a thread starts.
\<close>

definition rcutils_reset_error :: "error_handling_tls \<Rightarrow> error_handling_tls" where
  "rcutils_reset_error tls =
     tls\<lparr>gtls_rcutils_error_state := \<lparr>message = [], file_str = [], line_number = 0\<rparr>,
         gtls_rcutils_error_string_is_formatted := False,
         gtls_rcutils_error_string := [],
         gtls_rcutils_error_is_set := False\<rparr>"

definition error_handling_tls_initial :: error_handling_tls where
  "error_handling_tls_initial =
     \<lparr>gtls_rcutils_error_state = \<lparr>message = [], file_str = [], line_number = 0\<rparr>,
      gtls_rcutils_error_string_is_formatted = False,
      gtls_rcutils_error_string = [],
      gtls_rcutils_error_is_set = False\<rparr>"

text \<open>
  From the specification's words, not from the code: a number "printed as decimal digits
  (no padding, no sign)", and the value a digit string denotes. \<open>decimal_digits\<close> is what
  the code's conversion is compared with.
\<close>

fun decimal_digits :: "nat \<Rightarrow> string" where
  "decimal_digits n =
     (if n < 10 then [char_of (n + 48)]
      else decimal_digits (n div 10) @ [char_of (n mod 10 + 48)])"


definition digits_value :: "string \<Rightarrow> nat" where
  "digits_value ds = foldl (\<lambda>a c. 10 * a + (of_char c - 48)) 0 ds"

section \<open>Memory and the allocator (src/allocator.c)\<close>

text \<open>
  Memory is a store of objects: an address names a live object and its bytes. A pointer
  is an \<^typ>\<open>nat option\<close>, \<open>None\<close> for \<open>NULL\<close>. Whether a request to the system
  allocator succeeds is not in the program's hands; \<open>outcomes\<close> lists the answers to the
  coming requests (\<open>False\<close>: the request returns \<open>NULL\<close>; an exhausted list: every
  further request succeeds). \<open>junk\<close> is what fresh memory holds before it is written,
  and \<open>next_addr\<close> the address the next object gets. \<open>realloc\<close> always moves the object
  here; no statement below depends on which address it chose.

  C leaves a load or store outside a live object undefined. \<open>store\<close> drops such a write
  and \<open>load\<close> returns the bytes that exist.
\<close>

type_synonym size_t = "64 word"
type_synonym addr = nat

record heap =
  blocks :: "addr \<Rightarrow> string option"
  next_addr :: addr
  outcomes :: "bool list"
  junk :: "nat \<Rightarrow> char"

definition next_outcome :: "heap \<Rightarrow> bool \<times> heap" where
  "next_outcome h =
     (case outcomes h of [] \<Rightarrow> (True, h) | b # bs \<Rightarrow> (b, h\<lparr>outcomes := bs\<rparr>))"

definition new_block :: "string \<Rightarrow> heap \<Rightarrow> addr option \<times> heap" where
  "new_block bytes h =
     (Some (next_addr h),
      h\<lparr>blocks := (blocks h)(next_addr h \<mapsto> bytes), next_addr := next_addr h + 1\<rparr>)"

definition store :: "heap \<Rightarrow> addr option \<Rightarrow> nat \<Rightarrow> string \<Rightarrow> heap" where
  "store h p off bytes =
     (case p of None \<Rightarrow> h
      | Some a \<Rightarrow>
        (case blocks h a of None \<Rightarrow> h
         | Some b \<Rightarrow>
           if off + length bytes \<le> length b
           then h\<lparr>blocks := (blocks h)(a \<mapsto> take off b @ bytes @ drop (off + length bytes) b)\<rparr>
           else h))"

definition load :: "heap \<Rightarrow> addr option \<Rightarrow> nat \<Rightarrow> nat \<Rightarrow> string" where
  "load h p off n =
     (case p of None \<Rightarrow> []
      | Some a \<Rightarrow> (case blocks h a of None \<Rightarrow> [] | Some b \<Rightarrow> take n (drop off b)))"

text \<open>The bytes of the object a pointer names, if it names a live one.\<close>

definition block_of :: "heap \<Rightarrow> addr option \<Rightarrow> string option" where
  "block_of h p = (case p of None \<Rightarrow> None | Some a \<Rightarrow> blocks h a)"

text \<open>\<open>malloc\<close>, \<open>free\<close>, \<open>realloc\<close> and \<open>calloc\<close>, which the default allocator calls.\<close>

definition default_allocate :: "size_t \<Rightarrow> heap \<Rightarrow> addr option \<times> heap" where
  "default_allocate sz h =
     (let (ok, h1) = next_outcome h
      in if ok then new_block (map (junk h1) [0..<unat sz]) h1 else (None, h1))"

definition default_deallocate :: "addr option \<Rightarrow> heap \<Rightarrow> heap" where
  "default_deallocate pointer h =
     (case pointer of None \<Rightarrow> h | Some a \<Rightarrow> h\<lparr>blocks := (blocks h)(a := None)\<rparr>)"

definition default_reallocate :: "addr option \<Rightarrow> size_t \<Rightarrow> heap \<Rightarrow> addr option \<times> heap" where
  "default_reallocate pointer sz h =
     (case pointer of None \<Rightarrow> default_allocate sz h
      | Some a \<Rightarrow>
        (let (ok, h1) = next_outcome h;
             old = (case blocks h1 a of None \<Rightarrow> [] | Some b \<Rightarrow> b)
         in if ok
            then new_block (take (unat sz) old @ map (junk h1) [length old..<unat sz])
                   (h1\<lparr>blocks := (blocks h1)(a := None)\<rparr>)
            else (None, h1)))"

definition default_zero_allocate :: "size_t \<Rightarrow> size_t \<Rightarrow> heap \<Rightarrow> addr option \<times> heap" where
  "default_zero_allocate number_of_elements size_of_element h =
     (let (ok, h1) = next_outcome h
      in if ok \<and> unat number_of_elements * unat size_of_element < 2 ^ 64
         then new_block (replicate (unat number_of_elements * unat size_of_element) (CHR 0x00)) h1
         else (None, h1))"

text \<open>
  \<open>rcutils_allocator_t\<close>: four function pointers, \<open>None\<close> for a null one. The opaque
  \<open>state\<close> pointer is part of the store the functions act on.
\<close>

record rcutils_allocator_t =
  allocate :: "(size_t \<Rightarrow> heap \<Rightarrow> addr option \<times> heap) option"
  deallocate :: "(addr option \<Rightarrow> heap \<Rightarrow> heap) option"
  reallocate :: "(addr option \<Rightarrow> size_t \<Rightarrow> heap \<Rightarrow> addr option \<times> heap) option"
  zero_allocate :: "(size_t \<Rightarrow> size_t \<Rightarrow> heap \<Rightarrow> addr option \<times> heap) option"

definition rcutils_get_zero_initialized_allocator :: rcutils_allocator_t where
  "rcutils_get_zero_initialized_allocator =
     \<lparr>allocate = None, deallocate = None, reallocate = None, zero_allocate = None\<rparr>"

definition rcutils_get_default_allocator :: rcutils_allocator_t where
  "rcutils_get_default_allocator =
     \<lparr>allocate = Some default_allocate,
      deallocate = Some default_deallocate,
      reallocate = Some default_reallocate,
      zero_allocate = Some default_zero_allocate\<rparr>"

definition rcutils_allocator_is_valid :: "rcutils_allocator_t \<Rightarrow> bool" where
  "rcutils_allocator_is_valid a =
     (if allocate a = None \<or> deallocate a = None \<or> zero_allocate a = None \<or> reallocate a = None
      then False else True)"

definition rcutils_reallocf ::
  "addr option \<Rightarrow> size_t \<Rightarrow> rcutils_allocator_t \<Rightarrow> heap \<Rightarrow> addr option \<times> heap" where
  "rcutils_reallocf pointer sz a h =
     (if \<not> rcutils_allocator_is_valid a then (None, h)
      else (let (new_pointer, h1) = the (reallocate a) pointer sz h
            in if new_pointer = None then (None, the (deallocate a) pointer h1)
               else (new_pointer, h1)))"

text \<open>
  What the char array needs of the functions of an allocator, which \<open>allocator.h\<close>
  describes as \<open>malloc\<close> and \<open>realloc\<close>: a pointer that \<open>allocate\<close> or \<open>reallocate\<close>
  returns, if it is not null, names an object of the requested size, and the object that
  \<open>reallocate\<close> returns starts with the bytes of the old object, up to the smaller of
  the two sizes. Nothing is asked of a request that returns null, of \<open>deallocate\<close> or of
  \<open>zero_allocate\<close>.
\<close>

definition allocator_conforms :: "rcutils_allocator_t \<Rightarrow> bool" where
  "allocator_conforms a =
     ((\<forall>sz h. fst (the (allocate a) sz h) \<noteq> None \<longrightarrow>
         (\<exists>b. block_of (snd (the (allocate a) sz h)) (fst (the (allocate a) sz h)) = Some b \<and>
              length b = unat sz)) \<and>
      (\<forall>p0 sz h. fst (the (reallocate a) p0 sz h) \<noteq> None \<longrightarrow>
         (\<exists>b. block_of (snd (the (reallocate a) p0 sz h)) (fst (the (reallocate a) p0 sz h))
                = Some b \<and>
              length b = unat sz \<and>
              (\<forall>b0. block_of h p0 = Some b0 \<longrightarrow>
                 take (min (length b0) (unat sz)) b = take (min (length b0) (unat sz)) b0))))"

section \<open>Growable char array (src/char\_array.c)\<close>

text \<open>
  The struct \<open>rcutils_char_array_t\<close>. Each function takes the struct and the store and
  returns its return code, the struct and the store as it leaves them; the pointer to the
  struct is taken to be non-null, and the messages handed to \<open>RCUTILS_SET_ERROR_MSG\<close> are
  left out.
\<close>

record rcutils_char_array_t =
  buffer :: "addr option"
  owns_buffer :: bool
  buffer_length :: size_t
  buffer_capacity :: size_t
  allocator :: rcutils_allocator_t

definition MIN_macro :: "size_t \<Rightarrow> size_t \<Rightarrow> size_t" where
  "MIN_macro a b = (if a < b then a else b)"

definition rcutils_get_zero_initialized_char_array :: rcutils_char_array_t where
  "rcutils_get_zero_initialized_char_array =
     \<lparr>buffer = None, owns_buffer = True, buffer_length = 0, buffer_capacity = 0,
      allocator = rcutils_get_zero_initialized_allocator\<rparr>"

definition rcutils_char_array_init ::
  "rcutils_char_array_t \<Rightarrow> size_t \<Rightarrow> rcutils_allocator_t \<Rightarrow> heap
     \<Rightarrow> rcutils_ret_t \<times> rcutils_char_array_t \<times> heap" where
  "rcutils_char_array_init char_array capacity a h =
     (if \<not> rcutils_allocator_is_valid a then (RCUTILS_RET_ERROR, char_array, h)
      else
        (let ca = char_array\<lparr>owns_buffer := True, buffer_length := 0,
                              buffer_capacity := capacity, allocator := a\<rparr>
         in if capacity > 0
            then (let (p, h1) = the (allocate a) (capacity * 1) h;
                      ca = ca\<lparr>buffer := p\<rparr>
                  in if p = None
                     then (RCUTILS_RET_BAD_ALLOC, ca\<lparr>buffer_capacity := 0, buffer_length := 0\<rparr>, h1)
                     else (RCUTILS_RET_OK, ca, store h1 p 0 [CHR 0x00]))
            else (RCUTILS_RET_OK, ca, h)))"

definition rcutils_char_array_fini ::
  "rcutils_char_array_t \<Rightarrow> heap \<Rightarrow> rcutils_ret_t \<times> rcutils_char_array_t \<times> heap" where
  "rcutils_char_array_fini char_array h =
     (if owns_buffer char_array \<and> \<not> rcutils_allocator_is_valid (allocator char_array)
      then (RCUTILS_RET_ERROR, char_array, h)
      else
        (let h1 = (if owns_buffer char_array
                   then the (deallocate (allocator char_array)) (buffer char_array) h else h)
         in (RCUTILS_RET_OK,
             char_array\<lparr>buffer := None, buffer_length := 0, buffer_capacity := 0\<rparr>, h1)))"

text \<open>
  \<open>rcutils_char_array_resize\<close>. In the branch for a buffer the array does not own,
  \<open>n - 1\<close> is computed in \<open>size_t\<close>, as the code does.
\<close>

definition rcutils_char_array_resize ::
  "rcutils_char_array_t \<Rightarrow> size_t \<Rightarrow> heap \<Rightarrow> rcutils_ret_t \<times> rcutils_char_array_t \<times> heap" where
  "rcutils_char_array_resize char_array new_size h =
     (if new_size = 0 then (RCUTILS_RET_INVALID_ARGUMENT, char_array, h)
      else if \<not> rcutils_allocator_is_valid (allocator char_array)
      then (RCUTILS_RET_ERROR, char_array, h)
      else if new_size = buffer_capacity char_array then (RCUTILS_RET_OK, char_array, h)
      else
        (let old_buf = buffer char_array;
             old_size = buffer_capacity char_array;
             old_length = buffer_length char_array
         in if owns_buffer char_array
            then (let (new_buf, h1) =
                        rcutils_reallocf (buffer char_array) (new_size * 1) (allocator char_array) h
                  in if new_buf = None then (RCUTILS_RET_BAD_ALLOC, char_array, h1)
                     else (RCUTILS_RET_OK,
                           char_array\<lparr>buffer := new_buf, buffer_capacity := new_size,
                                        buffer_length := MIN_macro new_size old_length\<rparr>, h1))
            else (let (ret, ca, h1) =
                        rcutils_char_array_init char_array new_size (allocator char_array) h
                  in if ret \<noteq> RCUTILS_RET_OK then (ret, ca, h1)
                     else (let n = MIN_macro new_size old_size;
                               h2 = store h1 (buffer ca) 0 (load h1 old_buf 0 (unat n));
                               h3 = store h2 (buffer ca) (unat (n - 1)) [CHR 0x00]
                           in (RCUTILS_RET_OK,
                               ca\<lparr>buffer_capacity := new_size,
                                   buffer_length := MIN_macro new_size old_length\<rparr>, h3)))))"

definition rcutils_char_array_expand_as_needed ::
  "rcutils_char_array_t \<Rightarrow> size_t \<Rightarrow> heap \<Rightarrow> rcutils_ret_t \<times> rcutils_char_array_t \<times> heap" where
  "rcutils_char_array_expand_as_needed char_array new_size h =
     (if new_size \<le> buffer_capacity char_array then (RCUTILS_RET_OK, char_array, h)
      else
        (let minimum_size = buffer_capacity char_array + drop_bit 1 (buffer_capacity char_array);
             new_size = (if new_size < minimum_size then minimum_size else new_size)
         in rcutils_char_array_resize char_array new_size h))"

text \<open>
  \<open>vsnprintf\<close> is external. What it produces for the format and arguments of a call is a
  parameter: \<open>Some text\<close>, or \<open>None\<close> when it reports an error; its \<open>int\<close> result cannot
  express a length of \<open>2^31\<close> or more. It stores at most \<open>buffer_capacity - 1\<close> bytes and a
  terminator. \<open>rcutils_char_array_vsprintf\<close> calls it a second time after growing the
  buffer; \<open>pass1\<close> and \<open>pass2\<close> are what the two calls produce.
\<close>

definition rcutils_char_array_vsprintf_aux ::
  "rcutils_char_array_t \<Rightarrow> string option \<Rightarrow> heap \<Rightarrow> int \<times> heap" where
  "rcutils_char_array_vsprintf_aux char_array pass h =
     (case pass of None \<Rightarrow> (- 1, h)
      | Some out \<Rightarrow>
        if length out \<ge> 2 ^ 31 then (- 1, h)
        else (int (length out),
              if buffer_capacity char_array = 0 then h
              else store h (buffer char_array) 0
                     (take (unat (buffer_capacity char_array) - 1) out @ [CHR 0x00])))"

definition rcutils_char_array_vsprintf ::
  "rcutils_char_array_t \<Rightarrow> string option \<Rightarrow> string option \<Rightarrow> heap
     \<Rightarrow> rcutils_ret_t \<times> rcutils_char_array_t \<times> heap" where
  "rcutils_char_array_vsprintf char_array pass1 pass2 h =
     (let (sz, h1) = rcutils_char_array_vsprintf_aux char_array pass1 h
      in if sz < 0 then (RCUTILS_RET_ERROR, char_array, h1)
         else
           (let new_size = (word_of_int sz :: size_t) + 1
            in if new_size > buffer_capacity char_array
               then (let (ret, ca, h2) = rcutils_char_array_expand_as_needed char_array new_size h1
                     in if ret \<noteq> RCUTILS_RET_OK then (ret, ca, h2)
                        else (let (size2, h3) = rcutils_char_array_vsprintf_aux ca pass2 h2
                              in if size2 \<noteq> sz
                                 then (let (r, ca', h4) = rcutils_char_array_fini ca h3
                                       in (RCUTILS_RET_ERROR, ca', h4))
                                 else (RCUTILS_RET_OK, ca\<lparr>buffer_length := new_size\<rparr>, h3)))
               else (RCUTILS_RET_OK, char_array\<lparr>buffer_length := new_size\<rparr>, h1)))"

text \<open>
  \<open>src\<close> is the sequence of bytes at the source pointer. \<open>strcpy\<close> copies the string and
  its terminator.
\<close>

definition rcutils_char_array_memcpy ::
  "rcutils_char_array_t \<Rightarrow> string \<Rightarrow> size_t \<Rightarrow> heap
     \<Rightarrow> rcutils_ret_t \<times> rcutils_char_array_t \<times> heap" where
  "rcutils_char_array_memcpy char_array src n h =
     (let (ret, ca, h1) = rcutils_char_array_expand_as_needed char_array n h
      in if ret \<noteq> RCUTILS_RET_OK then (ret, ca, h1)
         else (RCUTILS_RET_OK, ca\<lparr>buffer_length := n\<rparr>,
               store h1 (buffer ca) 0 (take (unat n) src)))"

definition rcutils_char_array_strcpy ::
  "rcutils_char_array_t \<Rightarrow> string \<Rightarrow> heap \<Rightarrow> rcutils_ret_t \<times> rcutils_char_array_t \<times> heap" where
  "rcutils_char_array_strcpy char_array src h =
     rcutils_char_array_memcpy char_array (cstr src @ [CHR 0x00]) (of_nat (strlen src) + 1) h"

definition rcutils_char_array_strncat ::
  "rcutils_char_array_t \<Rightarrow> string \<Rightarrow> size_t \<Rightarrow> heap
     \<Rightarrow> rcutils_ret_t \<times> rcutils_char_array_t \<times> heap" where
  "rcutils_char_array_strncat char_array src n h =
     (let current_strlen = (if buffer_length char_array = 0 then 0
                            else buffer_length char_array - 1);
          new_length = current_strlen + n + 1;
          (ret, ca, h1) = rcutils_char_array_expand_as_needed char_array new_length h
      in if ret \<noteq> RCUTILS_RET_OK then (ret, ca, h1)
         else (let h2 = store h1 (buffer ca) (unat current_strlen) (take (unat n) src);
                   h3 = store h2 (buffer ca) (unat (new_length - 1)) [CHR 0x00]
               in (RCUTILS_RET_OK, ca\<lparr>buffer_length := new_length\<rparr>, h3)))"

definition rcutils_char_array_strcat ::
  "rcutils_char_array_t \<Rightarrow> string \<Rightarrow> heap \<Rightarrow> rcutils_ret_t \<times> rcutils_char_array_t \<times> heap" where
  "rcutils_char_array_strcat char_array src h =
     rcutils_char_array_strncat char_array src (of_nat (strlen src)) h"

text \<open>
  The operations of the char array as one type, so that a statement can speak of every
  operation.
\<close>

datatype char_array_op =
    Op_init size_t rcutils_allocator_t
  | Op_resize size_t
  | Op_expand_as_needed size_t
  | Op_vsprintf "string option" "string option"
  | Op_memcpy string size_t
  | Op_strcpy string
  | Op_strncat string size_t
  | Op_strcat string

fun char_array_run ::
  "char_array_op \<Rightarrow> rcutils_char_array_t \<Rightarrow> heap \<Rightarrow> rcutils_ret_t \<times> rcutils_char_array_t \<times> heap" where
  "char_array_run (Op_init capacity a) ca h = rcutils_char_array_init ca capacity a h"
| "char_array_run (Op_resize n) ca h = rcutils_char_array_resize ca n h"
| "char_array_run (Op_expand_as_needed n) ca h = rcutils_char_array_expand_as_needed ca n h"
| "char_array_run (Op_vsprintf pass1 pass2) ca h = rcutils_char_array_vsprintf ca pass1 pass2 h"
| "char_array_run (Op_memcpy src n) ca h = rcutils_char_array_memcpy ca src n h"
| "char_array_run (Op_strcpy src) ca h = rcutils_char_array_strcpy ca src h"
| "char_array_run (Op_strncat src n) ca h = rcutils_char_array_strncat ca src n h"
| "char_array_run (Op_strcat src) ca h = rcutils_char_array_strcat ca src h"

text \<open>
  A char array that owns its buffer: when its capacity is not zero, its buffer names a
  live object of that many bytes.
\<close>

definition char_array_owned :: "rcutils_char_array_t \<Rightarrow> heap \<Rightarrow> bool" where
  "char_array_owned ca h =
     (owns_buffer ca \<and>
      (buffer_capacity ca = 0 \<or>
       (\<exists>b. block_of h (buffer ca) = Some b \<and> length b = unat (buffer_capacity ca))))"

section \<open>Array list (src/array\_list.c)\<close>

text \<open>
  The array list and the hash map are modelled by what they hold rather than by the bytes
  of their storage. An array list of elements of \<open>data_size\<close> bytes is the list of its
  first \<open>size\<close> elements, the only slots the code reads, and its capacity; the field
  \<open>size\<close> is the length of that list. The pointer \<open>impl\<close> is an option, \<open>None\<close> for
  \<open>NULL\<close>. Sizes and capacities count objects that lie in memory, so they are natural
  numbers: the \<open>size_t\<close> arithmetic on them cannot wrap before memory is exhausted.

  Of the allocator only the answers matter here: \<open>alloc_request\<close> takes the next answer
  from the list of the answers to come, as \<open>next_outcome\<close> does for the store above. A
  function that allocates takes this list and returns what is left of it. The allocator
  itself is taken to be valid.
\<close>

definition alloc_request :: "bool list \<Rightarrow> bool \<times> bool list" where
  "alloc_request al = (case al of [] \<Rightarrow> (True, []) | b # bs \<Rightarrow> (b, bs))"

record 'a rcutils_array_list_impl_t =
  al_capacity :: nat
  al_list :: "'a list"
  al_data_size :: nat

type_synonym 'a rcutils_array_list_t = "'a rcutils_array_list_impl_t option"

definition rcutils_get_zero_initialized_array_list :: "'a rcutils_array_list_t" where
  "rcutils_get_zero_initialized_array_list = None"

definition rcutils_array_list_init ::
  "'a rcutils_array_list_t \<Rightarrow> nat \<Rightarrow> nat \<Rightarrow> bool list
     \<Rightarrow> rcutils_ret_t \<times> 'a rcutils_array_list_t \<times> bool list" where
  "rcutils_array_list_init array_list initial_capacity data_size al =
     (if array_list \<noteq> None then (RCUTILS_RET_INVALID_ARGUMENT, array_list, al)
      else if 1 > initial_capacity then (RCUTILS_RET_INVALID_ARGUMENT, array_list, al)
      else if 1 > data_size then (RCUTILS_RET_INVALID_ARGUMENT, array_list, al)
      else
        (let (got_impl, al1) = alloc_request al
         in if \<not> got_impl then (RCUTILS_RET_BAD_ALLOC, None, al1)
            else
              (let (got_list, al2) = alloc_request al1
               in if \<not> got_list then (RCUTILS_RET_BAD_ALLOC, None, al2)
                  else (RCUTILS_RET_OK,
                        Some \<lparr>al_capacity = initial_capacity, al_list = [],
                              al_data_size = data_size\<rparr>, al2))))"

definition rcutils_array_list_fini ::
  "'a rcutils_array_list_t \<Rightarrow> rcutils_ret_t \<times> 'a rcutils_array_list_t" where
  "rcutils_array_list_fini array_list =
     (case array_list of None \<Rightarrow> (RCUTILS_RET_NOT_INITIALIZED, None)
      | Some impl \<Rightarrow> (RCUTILS_RET_OK, None))"

definition rcutils_array_list_increase_capacity ::
  "'a rcutils_array_list_impl_t \<Rightarrow> bool list
     \<Rightarrow> rcutils_ret_t \<times> 'a rcutils_array_list_impl_t \<times> bool list" where
  "rcutils_array_list_increase_capacity impl al =
     (let new_capacity = 2 * al_capacity impl;
          (got_list, al1) = alloc_request al
      in if \<not> got_list then (RCUTILS_RET_BAD_ALLOC, impl, al1)
         else (RCUTILS_RET_OK, impl\<lparr>al_capacity := new_capacity\<rparr>, al1))"

definition rcutils_array_list_add ::
  "'a rcutils_array_list_t \<Rightarrow> 'a \<Rightarrow> bool list
     \<Rightarrow> rcutils_ret_t \<times> 'a rcutils_array_list_t \<times> bool list" where
  "rcutils_array_list_add array_list data al =
     (case array_list of None \<Rightarrow> (RCUTILS_RET_NOT_INITIALIZED, None, al)
      | Some impl \<Rightarrow>
        (let (ret, impl1, al1) =
               (if length (al_list impl) + 1 > al_capacity impl
                then rcutils_array_list_increase_capacity impl al
                else (RCUTILS_RET_OK, impl, al))
         in if ret \<noteq> RCUTILS_RET_OK then (ret, Some impl1, al1)
            else (ret, Some (impl1\<lparr>al_list := al_list impl1 @ [data]\<rparr>), al1)))"

definition rcutils_array_list_set ::
  "'a rcutils_array_list_t \<Rightarrow> nat \<Rightarrow> 'a \<Rightarrow> rcutils_ret_t \<times> 'a rcutils_array_list_t" where
  "rcutils_array_list_set array_list index data =
     (case array_list of None \<Rightarrow> (RCUTILS_RET_NOT_INITIALIZED, None)
      | Some impl \<Rightarrow>
        if length (al_list impl) \<le> index then (RCUTILS_RET_INVALID_ARGUMENT, array_list)
        else (RCUTILS_RET_OK, Some (impl\<lparr>al_list := (al_list impl)[index := data]\<rparr>)))"

text \<open>
  \<open>rcutils_array_list_remove\<close> moves the elements after \<open>index\<close> one slot down. The code
  does it with one \<open>memcpy\<close> whose source lies one element above its destination; the
  model takes the copy to proceed from the low addresses up, which is what shifts the
  elements.
\<close>

definition rcutils_array_list_remove ::
  "'a rcutils_array_list_t \<Rightarrow> nat \<Rightarrow> rcutils_ret_t \<times> 'a rcutils_array_list_t" where
  "rcutils_array_list_remove array_list index =
     (case array_list of None \<Rightarrow> (RCUTILS_RET_NOT_INITIALIZED, None)
      | Some impl \<Rightarrow>
        if length (al_list impl) \<le> index then (RCUTILS_RET_INVALID_ARGUMENT, array_list)
        else (RCUTILS_RET_OK,
              Some (impl\<lparr>al_list := take index (al_list impl) @ drop (index + 1) (al_list impl)\<rparr>)))"

definition rcutils_array_list_get ::
  "'a rcutils_array_list_t \<Rightarrow> nat \<Rightarrow> rcutils_ret_t \<times> 'a option" where
  "rcutils_array_list_get array_list index =
     (case array_list of None \<Rightarrow> (RCUTILS_RET_NOT_INITIALIZED, None)
      | Some impl \<Rightarrow>
        if length (al_list impl) \<le> index then (RCUTILS_RET_INVALID_ARGUMENT, None)
        else (RCUTILS_RET_OK, Some (al_list impl ! index)))"

definition rcutils_array_list_get_size ::
  "'a rcutils_array_list_t \<Rightarrow> rcutils_ret_t \<times> nat" where
  "rcutils_array_list_get_size array_list =
     (case array_list of None \<Rightarrow> (RCUTILS_RET_NOT_INITIALIZED, 0)
      | Some impl \<Rightarrow> (RCUTILS_RET_OK, length (al_list impl)))"

section \<open>Hash map (src/hash\_map.c)\<close>

text \<open>
  The key and the value of an entry are the objects of \<open>key_size\<close> and \<open>data_size\<close> bytes
  that \<open>memcpy\<close> copies in and out as a whole; their types are the parameters \<open>'k\<close> and
  \<open>'v\<close>, and the caller's hashing and comparison functions act on \<open>'k\<close>. A bucket holds
  its entries themselves where the code holds pointers to them: every entry is pointed to
  by one bucket slot, except while \<open>hash_map_check_and_grow_map\<close> builds the new bucket
  array. The hash of a key is a \<open>size_t\<close> and wraps as such.
\<close>

record ('k, 'v) rcutils_hash_map_entry_t =
  hashed_key :: size_t
  entry_key :: 'k
  entry_value :: 'v

type_synonym ('k, 'v) bucket_t = "('k, 'v) rcutils_hash_map_entry_t rcutils_array_list_t"

record ('k, 'v) rcutils_hash_map_impl_t =
  hm_map :: "('k, 'v) bucket_t list"
  hm_capacity :: nat
  hm_size :: nat
  hm_key_size :: nat
  hm_data_size :: nat
  hm_key_hashing_func :: "'k \<Rightarrow> size_t"
  hm_key_cmp_func :: "'k \<Rightarrow> 'k \<Rightarrow> int"

type_synonym ('k, 'v) rcutils_hash_map_t = "('k, 'v) rcutils_hash_map_impl_t option"

definition BUCKET_INITIAL_CAP :: nat where
  "BUCKET_INITIAL_CAP = 2"

text \<open>
  \<open>(size_t)(LOAD_FACTOR * (double)capacity)\<close> with \<open>LOAD_FACTOR\<close> 0.75: the product is
  exact in double precision for every capacity below \<open>2^53\<close>, and the conversion
  truncates it.
\<close>

definition load_threshold :: "nat \<Rightarrow> nat" where
  "load_threshold capacity = (3 * capacity) div 4"

text \<open>
  \<open>rcutils_hash_map_string_hash_func\<close> (djb2) and \<open>rcutils_hash_map_string_cmp_func\<close>. The
  key is a pointer to a C string and both functions look at the string only, so the key
  is modelled by the string. \<open>char\<close> is signed on the platforms rcutils is built for,
  and \<open>(size_t)c\<close> extends the sign. \<open>strcmp\<close> returns zero for equal strings and the
  difference of the first two bytes that differ otherwise.
\<close>

fun djb2_loop :: "size_t \<Rightarrow> string \<Rightarrow> size_t" where
  "djb2_loop hash [] = hash"
| "djb2_loop hash (c # cs) =
     djb2_loop ((push_bit 5 hash + hash) + scast (of_char c :: 8 word)) cs"

definition rcutils_hash_map_string_hash_func :: "string \<Rightarrow> size_t" where
  "rcutils_hash_map_string_hash_func key_str = djb2_loop 5381 (cstr key_str)"

fun strcmp :: "string \<Rightarrow> string \<Rightarrow> int" where
  "strcmp [] [] = 0"
| "strcmp [] (b # bs) = - of_char b"
| "strcmp (a # as) [] = of_char a"
| "strcmp (a # as) (b # bs) = (if a = b then strcmp as bs else of_char a - of_char b)"

definition rcutils_hash_map_string_cmp_func :: "string \<Rightarrow> string \<Rightarrow> int" where
  "rcutils_hash_map_string_cmp_func val1 val2 = strcmp (cstr val1) (cstr val2)"

definition rcutils_get_zero_initialized_hash_map :: "('k, 'v) rcutils_hash_map_t" where
  "rcutils_get_zero_initialized_hash_map = None"

definition hash_map_allocate_new_map ::
  "nat \<Rightarrow> bool list \<Rightarrow> rcutils_ret_t \<times> ('k, 'v) bucket_t list option \<times> bool list" where
  "hash_map_allocate_new_map capacity al =
     (let (got_map, al1) = alloc_request al
      in if \<not> got_map then (RCUTILS_RET_BAD_ALLOC, None, al1)
         else (RCUTILS_RET_OK, Some (replicate capacity rcutils_get_zero_initialized_array_list),
               al1))"

text \<open>
  \<open>hash_map_deallocate_map\<close> and \<open>hash_map_deallocate_entry\<close> give memory back and change
  nothing that is modelled; the former returns the first code other than OK that
  \<open>rcutils_array_list_fini\<close> gives for an initialised bucket.
\<close>

fun hash_map_deallocate_map :: "('k, 'v) bucket_t list \<Rightarrow> rcutils_ret_t" where
  "hash_map_deallocate_map [] = RCUTILS_RET_OK"
| "hash_map_deallocate_map (bucket # rest) =
     (if bucket \<noteq> None \<and> fst (rcutils_array_list_fini bucket) \<noteq> RCUTILS_RET_OK
      then fst (rcutils_array_list_fini bucket)
      else hash_map_deallocate_map rest)"

text \<open>
  \<open>hash_map_insert_entry\<close> writes the bucket in place, also when it then fails; the
  bucket array it returns is the array as the call leaves it.
\<close>

definition hash_map_insert_entry ::
  "('k, 'v) bucket_t list \<Rightarrow> nat \<Rightarrow> ('k, 'v) rcutils_hash_map_entry_t \<Rightarrow> bool list
     \<Rightarrow> rcutils_ret_t \<times> ('k, 'v) bucket_t list \<times> bool list" where
  "hash_map_insert_entry buckets bucket_index entry al =
     (let bucket = buckets ! bucket_index;
          (ret, bucket1, al1) =
             (if bucket = None
              then rcutils_array_list_init bucket BUCKET_INITIAL_CAP 8 al
              else (RCUTILS_RET_OK, bucket, al));
          (ret, bucket2, al2) =
             (if ret = RCUTILS_RET_OK then rcutils_array_list_add bucket1 entry al1
              else (ret, bucket1, al1))
      in (ret, buckets[bucket_index := bucket2], al2))"

text \<open>
  The loops of \<open>hash_map_check_and_grow_map\<close>: over the entries of one bucket of the old
  array, and over the buckets of the old array. Both stop at the first code other than
  OK.
\<close>

function hash_map_rehash_bucket ::
  "('k, 'v) bucket_t \<Rightarrow> nat \<Rightarrow> nat \<Rightarrow> nat \<Rightarrow> ('k, 'v) bucket_t list \<Rightarrow> bool list
     \<Rightarrow> rcutils_ret_t \<times> ('k, 'v) bucket_t list \<times> bool list" where
  "hash_map_rehash_bucket bucket bucket_size bucket_index new_capacity new_map al =
     (if bucket_index < bucket_size
      then (case rcutils_array_list_get bucket bucket_index of
              (ret, None) \<Rightarrow> (ret, new_map, al)
            | (ret, Some entry) \<Rightarrow>
                if ret \<noteq> RCUTILS_RET_OK then (ret, new_map, al)
                else
                  (let new_index = unat (hashed_key entry) mod new_capacity;
                       (ret, new_map1, al1) = hash_map_insert_entry new_map new_index entry al
                   in if ret = RCUTILS_RET_OK
                      then hash_map_rehash_bucket bucket bucket_size (bucket_index + 1)
                             new_capacity new_map1 al1
                      else (ret, new_map1, al1)))
      else (RCUTILS_RET_OK, new_map, al))"
  by pat_completeness auto
termination
  by (relation "measure (\<lambda>(bucket, bucket_size, bucket_index, r). bucket_size - bucket_index)") auto

function hash_map_rehash_map ::
  "('k, 'v) bucket_t list \<Rightarrow> nat \<Rightarrow> nat \<Rightarrow> nat \<Rightarrow> ('k, 'v) bucket_t list \<Rightarrow> bool list
     \<Rightarrow> rcutils_ret_t \<times> ('k, 'v) bucket_t list \<times> bool list" where
  "hash_map_rehash_map old_map capacity map_index new_capacity new_map al =
     (if map_index < capacity
      then (let bucket = old_map ! map_index
            in if bucket \<noteq> None
               then (let (ret, bucket_size) = rcutils_array_list_get_size bucket
                     in if ret \<noteq> RCUTILS_RET_OK then (ret, new_map, al)
                        else
                          (let (ret, new_map1, al1) =
                                 hash_map_rehash_bucket bucket bucket_size 0 new_capacity new_map al
                           in if ret = RCUTILS_RET_OK
                              then hash_map_rehash_map old_map capacity (map_index + 1)
                                     new_capacity new_map1 al1
                              else (ret, new_map1, al1)))
               else hash_map_rehash_map old_map capacity (map_index + 1) new_capacity new_map al)
      else (RCUTILS_RET_OK, new_map, al))"
  by pat_completeness auto
termination
  by (relation "measure (\<lambda>(old_map, capacity, map_index, r). capacity - map_index)") auto

definition hash_map_check_and_grow_map ::
  "('k, 'v) rcutils_hash_map_impl_t \<Rightarrow> bool list
     \<Rightarrow> rcutils_ret_t \<times> ('k, 'v) rcutils_hash_map_impl_t \<times> bool list" where
  "hash_map_check_and_grow_map hash_map al =
     (if hm_size hash_map \<ge> load_threshold (hm_capacity hash_map)
      then (let new_capacity = 2 * hm_capacity hash_map;
                (ret, new_map, al1) = hash_map_allocate_new_map new_capacity al
            in if ret \<noteq> RCUTILS_RET_OK then (ret, hash_map, al1)
               else
                 (let (ret, new_map1, al2) =
                        hash_map_rehash_map (hm_map hash_map) (hm_capacity hash_map) 0
                          new_capacity (the new_map) al1
                  in if ret \<noteq> RCUTILS_RET_OK then (ret, hash_map, al2)
                     else
                       (let ret = hash_map_deallocate_map (hm_map hash_map)
                        in (ret, hash_map\<lparr>hm_map := new_map1, hm_capacity := new_capacity\<rparr>,
                            al2))))
      else (RCUTILS_RET_OK, hash_map, al))"

text \<open>\<open>next_power_of_two\<close>, on the \<open>size_t\<close> the caller of \<open>rcutils_hash_map_init\<close> passes.\<close>

function next_power_of_two_loop :: "nat \<Rightarrow> nat \<Rightarrow> size_t \<Rightarrow> size_t" where
  "next_power_of_two_loop i shf v =
     (if shf < 8 * 4
      then (let shf = 2 ^ i; v = v OR drop_bit shf v in next_power_of_two_loop (i + 1) shf v)
      else v)"
  by pat_completeness auto
termination
proof (relation "measure (\<lambda>(i, shf, v). if shf < 32 then 1 + (6 - i) else 0)", goal_cases)
  case 1
  show ?case by simp
next
  case (2 i shf v x xa)
  have "i < 5" if "(2::nat) ^ i < 32"
  proof (rule ccontr)
    assume "\<not> i < 5"
    then have "(2::nat) ^ 5 \<le> 2 ^ i" by (intro power_increasing) auto
    with that show False by simp
  qed
  with 2 show ?case by auto
qed

definition next_power_of_two :: "size_t \<Rightarrow> size_t" where
  "next_power_of_two v =
     (let v = v - 1;
          v = next_power_of_two_loop 0 0 v;
          v = v + 1
      in if v > 1 then v else 1)"

definition rcutils_hash_map_init ::
  "('k, 'v) rcutils_hash_map_t \<Rightarrow> size_t \<Rightarrow> size_t \<Rightarrow> size_t \<Rightarrow> ('k \<Rightarrow> size_t)
     \<Rightarrow> ('k \<Rightarrow> 'k \<Rightarrow> int) \<Rightarrow> bool list
     \<Rightarrow> rcutils_ret_t \<times> ('k, 'v) rcutils_hash_map_t \<times> bool list" where
  "rcutils_hash_map_init hash_map initial_capacity key_size data_size
       key_hashing_func key_cmp_func al =
     (if 1 > initial_capacity then (RCUTILS_RET_INVALID_ARGUMENT, hash_map, al)
      else if 1 > key_size then (RCUTILS_RET_INVALID_ARGUMENT, hash_map, al)
      else if 1 > data_size then (RCUTILS_RET_INVALID_ARGUMENT, hash_map, al)
      else
        (let initial_capacity =
               (if initial_capacity AND (initial_capacity - 1) \<noteq> 0
                then next_power_of_two initial_capacity else initial_capacity);
             (got_impl, al1) = alloc_request al
         in if \<not> got_impl then (RCUTILS_RET_BAD_ALLOC, None, al1)
            else
              (let (ret, new_map, al2) = hash_map_allocate_new_map (unat initial_capacity) al1
               in if ret \<noteq> RCUTILS_RET_OK then (ret, None, al2)
                  else (RCUTILS_RET_OK,
                        Some \<lparr>hm_map = the new_map, hm_capacity = unat initial_capacity,
                              hm_size = 0, hm_key_size = unat key_size,
                              hm_data_size = unat data_size,
                              hm_key_hashing_func = key_hashing_func,
                              hm_key_cmp_func = key_cmp_func\<rparr>, al2))))"

definition rcutils_hash_map_get_capacity ::
  "('k, 'v) rcutils_hash_map_t \<Rightarrow> rcutils_ret_t \<times> nat" where
  "rcutils_hash_map_get_capacity hash_map =
     (case hash_map of None \<Rightarrow> (RCUTILS_RET_NOT_INITIALIZED, 0)
      | Some impl \<Rightarrow> (RCUTILS_RET_OK, hm_capacity impl))"

definition rcutils_hash_map_get_size ::
  "('k, 'v) rcutils_hash_map_t \<Rightarrow> rcutils_ret_t \<times> nat" where
  "rcutils_hash_map_get_size hash_map =
     (case hash_map of None \<Rightarrow> (RCUTILS_RET_NOT_INITIALIZED, 0)
      | Some impl \<Rightarrow> (RCUTILS_RET_OK, hm_size impl))"

text \<open>
  \<open>hash_map_find\<close>: the loop over the bucket, and the function. The result is whether the
  key was found, the results \<open>key_hash\<close> and \<open>map_index\<close>, and the index and the entry
  when it was found.
\<close>

function hash_map_find_loop ::
  "('k \<Rightarrow> 'k \<Rightarrow> int) \<Rightarrow> ('k, 'v) bucket_t \<Rightarrow> 'k \<Rightarrow> size_t \<Rightarrow> nat \<Rightarrow> nat
     \<Rightarrow> (nat \<times> ('k, 'v) rcutils_hash_map_entry_t) option" where
  "hash_map_find_loop key_cmp_func bucket key key_hash bucket_size i =
     (if i < bucket_size
      then (case rcutils_array_list_get bucket i of
              (ret, None) \<Rightarrow> None
            | (ret, Some bucket_entry) \<Rightarrow>
                if ret \<noteq> RCUTILS_RET_OK then None
                else if hashed_key bucket_entry = key_hash \<and>
                        0 = key_cmp_func (entry_key bucket_entry) key
                then Some (i, bucket_entry)
                else hash_map_find_loop key_cmp_func bucket key key_hash bucket_size (i + 1))
      else None)"
  by pat_completeness auto
termination
  by (relation "measure (\<lambda>(c, bucket, key, key_hash, bucket_size, i). bucket_size - i)") auto

definition hash_map_find ::
  "('k, 'v) rcutils_hash_map_impl_t \<Rightarrow> 'k
     \<Rightarrow> bool \<times> size_t \<times> nat \<times> (nat \<times> ('k, 'v) rcutils_hash_map_entry_t) option" where
  "hash_map_find hash_map key =
     (let key_hash = hm_key_hashing_func hash_map key;
          map_index = unat key_hash AND (hm_capacity hash_map - 1);
          bucket = hm_map hash_map ! map_index
      in if bucket = None then (False, key_hash, map_index, None)
         else
           (let (ret, bucket_size) = rcutils_array_list_get_size bucket
            in if ret \<noteq> RCUTILS_RET_OK then (False, key_hash, map_index, None)
               else
                 (case hash_map_find_loop (hm_key_cmp_func hash_map) bucket key key_hash
                         bucket_size 0 of
                    None \<Rightarrow> (False, key_hash, map_index, None)
                  | Some found \<Rightarrow> (True, key_hash, map_index, Some found))))"

text \<open>
  \<open>rcutils_hash_map_set\<close>, in two steps: the update of the entry found or the insertion
  of a new one, which can fail, and then \<open>hash_map_check_and_grow_map\<close>, whose return code
  is only logged.
\<close>

definition rcutils_hash_map_set_entry ::
  "('k, 'v) rcutils_hash_map_impl_t \<Rightarrow> 'k \<Rightarrow> 'v \<Rightarrow> bool list
     \<Rightarrow> rcutils_ret_t \<times> ('k, 'v) rcutils_hash_map_impl_t \<times> bool list" where
  "rcutils_hash_map_set_entry hash_map key data al =
     (case hash_map_find hash_map key of
        (already_exists, key_hash, map_index, Some (bucket_index, entry)) \<Rightarrow>
          (let bucket = the (hm_map hash_map ! map_index);
               bucket = bucket\<lparr>al_list :=
                          (al_list bucket)[bucket_index := entry\<lparr>entry_value := data\<rparr>]\<rparr>
           in (RCUTILS_RET_OK, hash_map\<lparr>hm_map := (hm_map hash_map)[map_index := Some bucket]\<rparr>,
               al))
      | (already_exists, key_hash, map_index, None) \<Rightarrow>
          (let (got_entry, al1) = alloc_request al
           in if \<not> got_entry then (RCUTILS_RET_BAD_ALLOC, hash_map, al1)
              else
                (let (got_key, al2) = alloc_request al1;
                     (got_value, al3) = alloc_request al2;
                     ret = (if \<not> got_key \<or> \<not> got_value then RCUTILS_RET_BAD_ALLOC
                            else RCUTILS_RET_OK);
                     (ret, buckets, al4) =
                        (if ret = RCUTILS_RET_OK
                         then (let entry = \<lparr>hashed_key = key_hash, entry_key = key,
                                            entry_value = data\<rparr>;
                                   bucket_index = unat key_hash AND (hm_capacity hash_map - 1)
                               in hash_map_insert_entry (hm_map hash_map) bucket_index entry al3)
                         else (ret, hm_map hash_map, al3))
                 in if ret \<noteq> RCUTILS_RET_OK then (ret, hash_map\<lparr>hm_map := buckets\<rparr>, al4)
                    else (RCUTILS_RET_OK,
                          hash_map\<lparr>hm_map := buckets, hm_size := hm_size hash_map + 1\<rparr>, al4))))"

definition rcutils_hash_map_set ::
  "('k, 'v) rcutils_hash_map_t \<Rightarrow> 'k \<Rightarrow> 'v \<Rightarrow> bool list
     \<Rightarrow> rcutils_ret_t \<times> ('k, 'v) rcutils_hash_map_t \<times> bool list" where
  "rcutils_hash_map_set hash_map key data al =
     (case hash_map of None \<Rightarrow> (RCUTILS_RET_NOT_INITIALIZED, None, al)
      | Some impl \<Rightarrow>
        (let (ret, impl1, al1) = rcutils_hash_map_set_entry impl key data al
         in if ret \<noteq> RCUTILS_RET_OK then (ret, Some impl1, al1)
            else (let (ret, impl2, al2) = hash_map_check_and_grow_map impl1 al1
                  in (RCUTILS_RET_OK, Some impl2, al2))))"

definition rcutils_hash_map_unset ::
  "('k, 'v) rcutils_hash_map_t \<Rightarrow> 'k \<Rightarrow> rcutils_ret_t \<times> ('k, 'v) rcutils_hash_map_t" where
  "rcutils_hash_map_unset hash_map key =
     (case hash_map of None \<Rightarrow> (RCUTILS_RET_NOT_INITIALIZED, None)
      | Some impl \<Rightarrow>
        if hm_size impl = 0 then (RCUTILS_RET_OK, hash_map)
        else
          (case hash_map_find impl key of
             (already_exists, key_hash, map_index, None) \<Rightarrow> (RCUTILS_RET_OK, hash_map)
           | (already_exists, key_hash, map_index, Some (bucket_index, entry)) \<Rightarrow>
               (let (ret, bucket) = rcutils_array_list_remove (hm_map impl ! map_index) bucket_index
                in if ret = RCUTILS_RET_OK
                   then (RCUTILS_RET_OK,
                         Some (impl\<lparr>hm_map := (hm_map impl)[map_index := bucket],
                                    hm_size := hm_size impl - 1\<rparr>))
                   else (RCUTILS_RET_OK,
                         Some (impl\<lparr>hm_map := (hm_map impl)[map_index := bucket]\<rparr>)))))"

definition rcutils_hash_map_key_exists :: "('k, 'v) rcutils_hash_map_t \<Rightarrow> 'k \<Rightarrow> bool" where
  "rcutils_hash_map_key_exists hash_map key =
     (case hash_map of None \<Rightarrow> False
      | Some impl \<Rightarrow>
        if hm_size impl = 0 then False
        else fst (hash_map_find impl key))"

definition rcutils_hash_map_get ::
  "('k, 'v) rcutils_hash_map_t \<Rightarrow> 'k \<Rightarrow> rcutils_ret_t \<times> 'v option" where
  "rcutils_hash_map_get hash_map key =
     (case hash_map of None \<Rightarrow> (RCUTILS_RET_NOT_INITIALIZED, None)
      | Some impl \<Rightarrow>
        if hm_size impl = 0 then (RCUTILS_RET_NOT_FOUND, None)
        else
          (case hash_map_find impl key of
             (already_exists, key_hash, map_index, Some (bucket_index, entry)) \<Rightarrow>
               (RCUTILS_RET_OK, Some (entry_value entry))
           | (already_exists, key_hash, map_index, None) \<Rightarrow> (RCUTILS_RET_NOT_FOUND, None)))"



text \<open>
  What a hash map holds, for the statements about it: the entries of a bucket, the
  entries of the whole array in the order of the buckets, the test \<open>hash_map_find\<close>
  applies to an entry, and the invariant of an initialised map. The invariant says that
  the bucket array has \<open>capacity\<close> buckets, that the capacity is a power of two, that every
  entry lies in the bucket its hash selects, and that \<open>size\<close> counts the entries.
\<close>

definition bucket_entries :: "('k, 'v) bucket_t \<Rightarrow> ('k, 'v) rcutils_hash_map_entry_t list" where
  "bucket_entries bucket = (case bucket of None \<Rightarrow> [] | Some impl \<Rightarrow> al_list impl)"

definition all_entries :: "('k, 'v) bucket_t list \<Rightarrow> ('k, 'v) rcutils_hash_map_entry_t list" where
  "all_entries buckets = concat (map bucket_entries buckets)"

definition key_matches ::
  "('k, 'v) rcutils_hash_map_impl_t \<Rightarrow> 'k \<Rightarrow> ('k, 'v) rcutils_hash_map_entry_t \<Rightarrow> bool" where
  "key_matches hash_map key e =
     (hashed_key e = hm_key_hashing_func hash_map key \<and>
      hm_key_cmp_func hash_map (entry_key e) key = 0)"

definition hash_map_lookup ::
  "('k, 'v) rcutils_hash_map_impl_t \<Rightarrow> 'k \<Rightarrow> ('k, 'v) rcutils_hash_map_entry_t option" where
  "hash_map_lookup hash_map key =
     List.find (key_matches hash_map key)
       (bucket_entries
          (hm_map hash_map ! (unat (hm_key_hashing_func hash_map key) mod hm_capacity hash_map)))"

definition buckets_placed :: "('k, 'v) bucket_t list \<Rightarrow> bool" where
  "buckets_placed buckets =
     (\<forall>i < length buckets. \<forall>e \<in> set (bucket_entries (buckets ! i)).
        unat (hashed_key e) mod length buckets = i)"

definition hash_map_inv :: "('k, 'v) rcutils_hash_map_impl_t \<Rightarrow> bool" where
  "hash_map_inv hash_map =
     (length (hm_map hash_map) = hm_capacity hash_map \<and>
      (\<exists>n. hm_capacity hash_map = 2 ^ n) \<and>
      buckets_placed (hm_map hash_map) \<and>
      hm_size hash_map = length (all_entries (hm_map hash_map)))"

text \<open>The first element of a list that passes a test, with its index counted from \<open>i\<close>.\<close>

fun find_from :: "('a \<Rightarrow> bool) \<Rightarrow> 'a list \<Rightarrow> nat \<Rightarrow> (nat \<times> 'a) option" where
  "find_from P [] i = None"
| "find_from P (x # xs) i = (if P x then Some (i, x) else find_from P xs (i + 1))"


text \<open>
  The requests that \<open>rcutils_hash_map_set\<close> makes to the allocator for a key that the map
  does not hold, before it looks at the load factor. They are, in this order: the entry,
  the copy of the key and the copy of the value, both of which are requested whatever
  the answer to the first of the two is; and, when these three are granted, the requests
  of \<open>hash_map_insert_entry\<close>, which are the \<open>impl\<close> and the list of a bucket that is
  not initialised (\<open>rcutils_array_list_init\<close>, the second only when the first is
  granted), or the larger list of a bucket that is full
  (\<open>rcutils_array_list_increase_capacity\<close>), or none. \<open>hash_map_insert_requests\<close> counts
  the requests for the bucket, and \<open>rcutils_hash_map_set_refused\<close> says that the allocator
  refuses one of the requests for the new entry.
\<close>

definition hash_map_insert_requests :: "('k, 'v) bucket_t list \<Rightarrow> nat \<Rightarrow> nat" where
  "hash_map_insert_requests buckets bucket_index =
     (case buckets ! bucket_index of
        None \<Rightarrow> 2
      | Some impl \<Rightarrow> if length (al_list impl) + 1 > al_capacity impl then 1 else 0)"

definition rcutils_hash_map_set_refused ::
  "('k, 'v) rcutils_hash_map_impl_t \<Rightarrow> 'k \<Rightarrow> bool list \<Rightarrow> bool" where
  "rcutils_hash_map_set_refused hash_map key al =
     (let key_hash = hm_key_hashing_func hash_map key;
          bucket_index = unat key_hash AND (hm_capacity hash_map - 1)
      in False \<in> set (take (3 + hash_map_insert_requests (hm_map hash_map) bucket_index) al))"

section \<open>Logger severities (src/find.c, src/strdup.c, src/logging.c)\<close>

























section \<open>Example runs\<close>

text \<open>
  Concrete runs, at which the theorems below are evaluated. \<open>heap_empty\<close> is a store
  with no object, where every request to the allocator succeeds.
\<close>

definition heap_empty :: heap where
  "heap_empty = \<lparr>blocks = (\<lambda>a. None), next_addr = 0, outcomes = [], junk = (\<lambda>i. CHR ''#'')\<rparr>"

text \<open>
  Testable property 10 of the specification: a zero-initialised char array, initialised
  with capacity 0, then \<open>strcat("ab")\<close> and \<open>strcat("cd")\<close>; and a resize of the result
  to two bytes.
\<close>

definition strcat_run_init :: "rcutils_ret_t \<times> rcutils_char_array_t \<times> heap" where
  "strcat_run_init =
     rcutils_char_array_init rcutils_get_zero_initialized_char_array 0
       rcutils_get_default_allocator heap_empty"

definition strcat_run_a :: "rcutils_ret_t \<times> rcutils_char_array_t \<times> heap" where
  "strcat_run_a =
     rcutils_char_array_strcat (fst (snd strcat_run_init)) ''ab'' (snd (snd strcat_run_init))"

definition strcat_run_b :: "rcutils_ret_t \<times> rcutils_char_array_t \<times> heap" where
  "strcat_run_b =
     rcutils_char_array_strcat (fst (snd strcat_run_a)) ''cd'' (snd (snd strcat_run_a))"

definition resize_run_shrink :: "rcutils_ret_t \<times> rcutils_char_array_t \<times> heap" where
  "resize_run_shrink =
     char_array_run (Op_resize 2) (fst (snd strcat_run_b)) (snd (snd strcat_run_b))"

text \<open>
  A char array initialised with capacity 4 by the default allocator, and a resize to 8
  bytes at which the allocator has no memory to give.
\<close>

definition resize_run_init :: "rcutils_ret_t \<times> rcutils_char_array_t \<times> heap" where
  "resize_run_init =
     rcutils_char_array_init rcutils_get_zero_initialized_char_array 4
       rcutils_get_default_allocator (heap_empty\<lparr>outcomes := [True, False]\<rparr>)"

definition resize_run_fail :: "rcutils_ret_t \<times> rcutils_char_array_t \<times> heap" where
  "resize_run_fail =
     rcutils_char_array_resize (fst (snd resize_run_init)) 8 (snd (snd resize_run_init))"


text \<open>
  A hash map from strings to integers with the string hash and comparison functions of
  \<open>hash_map.c\<close>, initialised with capacity 2 by an allocator that always has memory.
\<close>

definition hm_fresh :: "(string, int) rcutils_hash_map_impl_t" where
  "hm_fresh =
     the (fst (snd (rcutils_hash_map_init None 2 8 4 rcutils_hash_map_string_hash_func
                      rcutils_hash_map_string_cmp_func [])))"

text \<open>
  A hash map initialised with capacity 1, and three calls of \<open>rcutils_hash_map_set\<close>. The
  allocator refuses its eighth and its twelfth request, which are the requests for the
  new bucket array in the first call and in the second; it grants every other one. The
  third call is also given in its two steps.
\<close>

definition hm_run_init :: "rcutils_ret_t \<times> (string, int) rcutils_hash_map_t \<times> bool list" where
  "hm_run_init =
     rcutils_hash_map_init None 1 8 4 rcutils_hash_map_string_hash_func
       rcutils_hash_map_string_cmp_func
       [True, True, True, True, True, True, True, False, True, True, True, False]"

definition hm_run_a :: "rcutils_ret_t \<times> (string, int) rcutils_hash_map_t \<times> bool list" where
  "hm_run_a = rcutils_hash_map_set (fst (snd hm_run_init)) ''a'' 10 (snd (snd hm_run_init))"

definition hm_run_b :: "rcutils_ret_t \<times> (string, int) rcutils_hash_map_t \<times> bool list" where
  "hm_run_b = rcutils_hash_map_set (fst (snd hm_run_a)) ''b'' 20 (snd (snd hm_run_a))"

definition hm_run_c :: "rcutils_ret_t \<times> (string, int) rcutils_hash_map_t \<times> bool list" where
  "hm_run_c = rcutils_hash_map_set (fst (snd hm_run_b)) ''c'' 30 (snd (snd hm_run_b))"

definition hm_run_c_entry ::
  "rcutils_ret_t \<times> (string, int) rcutils_hash_map_impl_t \<times> bool list" where
  "hm_run_c_entry =
     rcutils_hash_map_set_entry (the (fst (snd hm_run_b))) ''c'' 30 (snd (snd hm_run_b))"

definition hm_run_c_grow ::
  "rcutils_ret_t \<times> (string, int) rcutils_hash_map_impl_t \<times> bool list" where
  "hm_run_c_grow =
     hash_map_check_and_grow_map (fst (snd hm_run_c_entry)) (snd (snd hm_run_c_entry))"










section \<open>Theorems\<close>

subsection \<open>Fault injection\<close>

lemma sint_never_fail: "sint RCUTILS_FAULT_INJECTION_NEVER_FAIL = - 1"
  by (simp add: RCUTILS_FAULT_INJECTION_NEVER_FAIL_def)

text \<open>
  C5, as the code has it. With fault injection compiled in,
  \<open>rcutils_fault_injection_is_test_complete\<close> is true exactly when the counter is greater
  than \<open>RCUTILS_FAULT_INJECTION_NEVER_FAIL\<close> (that is, greater than \<open>-1\<close>), and false
  for every counter that is \<open>-1\<close> or below; with fault injection compiled out it is
  always true. This is the sense the loop of \<open>RCUTILS_FAULT_INJECTION_TEST\<close> needs: it
  repeats while the counter was used up by the code under test.
\<close>

theorem is_test_complete_iff_above_never_fail:
  "rcutils_fault_injection_is_test_complete enabled g =
     (if enabled then - 1 < sint g else True)"
  by (simp add: rcutils_fault_injection_is_test_complete_def
      rcutils_fault_injection_get_count_def sint_never_fail)

text \<open>
  C5 as the specification words it (true when the counter is at most \<open>-1\<close>, false above)
  fails at both ends: at counter \<open>0\<close> the function answers true, and at counter \<open>-1\<close> it
  answers false.
\<close>

theorem is_test_complete_counterexample:
  "rcutils_fault_injection_is_test_complete True 0 \<and>
   \<not> rcutils_fault_injection_is_test_complete True (- 1)"
  by (simp add: rcutils_fault_injection_is_test_complete_def
      rcutils_fault_injection_get_count_def sint_never_fail)

subsection \<open>C strings\<close>

lemma take_takeWhile_le:
  "k \<le> length (takeWhile P xs) \<Longrightarrow> take k xs = take k (takeWhile P xs)"
proof -
  assume k: "k \<le> length (takeWhile P xs)"
  have "take k xs = take k (takeWhile P xs @ dropWhile P xs)" by simp
  also have "\<dots> = take k (takeWhile P xs)" using k by (simp del: takeWhile_dropWhile_id)
  finally show ?thesis .
qed


lemma cstr_take: "cstr (take k (cstr s)) = take k (cstr s)"
  unfolding cstr_def by (metis (mono_tags, lifting) in_set_takeD set_takeWhileD takeWhile_eq_all_conv)

lemma take_strlen_cstr: "take (strlen s) s = cstr s"
proof -
  have "take (strlen s) s = take (strlen s) (cstr s)"
    unfolding strlen_def cstr_def by (intro take_takeWhile_le) simp
  then show ?thesis by (simp add: strlen_def)
qed

subsection \<open>Char array\<close>

lemma MIN_macro_le1: "MIN_macro a b \<le> a"
  by (auto simp: MIN_macro_def)

lemma MIN_macro_eq_min: "MIN_macro a b = min a b"
  by (auto simp: MIN_macro_def min_def)

lemma char_array_init_length:
  "rcutils_char_array_init ca0 capacity a h = (RCUTILS_RET_OK, ca, h') \<Longrightarrow>
   buffer_length ca = 0 \<and> buffer_capacity ca = capacity"
  by (auto simp: rcutils_char_array_init_def Let_def split: if_splits prod.splits)

lemma char_array_resize_ok:
  assumes "rcutils_char_array_resize ca0 new_size h = (RCUTILS_RET_OK, ca, h')"
  shows "buffer_capacity ca = new_size"
    and "new_size \<noteq> buffer_capacity ca0 \<Longrightarrow>
           buffer_length ca = MIN_macro new_size (buffer_length ca0)"
    and "new_size = buffer_capacity ca0 \<Longrightarrow> ca = ca0"
  using assms
  by (auto simp: rcutils_char_array_resize_def Let_def
      dest: char_array_init_length split: if_splits prod.splits)

lemma char_array_resize_inv:
  assumes "rcutils_char_array_resize ca0 new_size h = (RCUTILS_RET_OK, ca, h')"
      and "buffer_length ca0 \<le> buffer_capacity ca0"
  shows "buffer_length ca \<le> buffer_capacity ca"
proof (cases "new_size = buffer_capacity ca0")
  case True
  with assms char_array_resize_ok(3) [OF assms(1)] show ?thesis by simp
next
  case False
  with char_array_resize_ok [OF assms(1)] show ?thesis by (simp add: MIN_macro_le1)
qed

lemma char_array_expand_ok:
  assumes "rcutils_char_array_expand_as_needed ca0 new_size h = (RCUTILS_RET_OK, ca, h')"
  shows "new_size \<le> buffer_capacity ca"
    and "buffer_length ca0 \<le> buffer_capacity ca0 \<Longrightarrow> buffer_length ca \<le> buffer_capacity ca"
proof -
  show "new_size \<le> buffer_capacity ca"
    using assms
    by (auto simp: rcutils_char_array_expand_as_needed_def Let_def
        dest!: char_array_resize_ok(1) split: if_splits)
  show "buffer_length ca0 \<le> buffer_capacity ca0 \<Longrightarrow> buffer_length ca \<le> buffer_capacity ca"
    using assms
    by (auto simp: rcutils_char_array_expand_as_needed_def Let_def
        dest: char_array_resize_inv split: if_splits)
qed

lemma char_array_memcpy_inv:
  "rcutils_char_array_memcpy ca0 src n h = (RCUTILS_RET_OK, ca, h') \<Longrightarrow>
   buffer_length ca \<le> buffer_capacity ca"
  by (auto simp: rcutils_char_array_memcpy_def Let_def
      dest: char_array_expand_ok(1) split: if_splits prod.splits)

lemma char_array_strncat_inv:
  "rcutils_char_array_strncat ca0 src n h = (RCUTILS_RET_OK, ca, h') \<Longrightarrow>
   buffer_length ca \<le> buffer_capacity ca"
  by (auto simp: rcutils_char_array_strncat_def Let_def
      dest: char_array_expand_ok(1) split: if_splits prod.splits)

lemma char_array_vsprintf_inv:
  "rcutils_char_array_vsprintf ca0 pass1 pass2 h = (RCUTILS_RET_OK, ca, h') \<Longrightarrow>
   buffer_length ca \<le> buffer_capacity ca"
  by (auto simp: rcutils_char_array_vsprintf_def Let_def
      dest: char_array_expand_ok(1) split: if_splits prod.splits)

lemma char_array_run_inv:
  assumes "char_array_run op ca0 h = (RCUTILS_RET_OK, ca, h')"
      and "buffer_length ca0 \<le> buffer_capacity ca0"
  shows "buffer_length ca \<le> buffer_capacity ca"
proof (cases op)
  case (Op_init capacity a)
  with assms show ?thesis by (auto dest: char_array_init_length)
next
  case (Op_resize n)
  with assms show ?thesis by (auto dest: char_array_resize_inv)
next
  case (Op_expand_as_needed n)
  with assms show ?thesis by (auto dest: char_array_expand_ok(2))
next
  case (Op_vsprintf p1 p2)
  with assms show ?thesis by (auto dest: char_array_vsprintf_inv)
next
  case (Op_memcpy src n)
  with assms show ?thesis by (auto dest: char_array_memcpy_inv)
next
  case (Op_strcpy src)
  with assms show ?thesis by (auto simp: rcutils_char_array_strcpy_def dest: char_array_memcpy_inv)
next
  case (Op_strncat src n)
  with assms show ?thesis by (auto dest: char_array_strncat_inv)
next
  case (Op_strcat src)
  with assms show ?thesis by (auto simp: rcutils_char_array_strcat_def dest: char_array_strncat_inv)
qed

lemma block_of_new_block:
  "new_block bytes h = (p, h') \<Longrightarrow> block_of h' p = Some bytes"
  by (auto simp: new_block_def block_of_def)

lemma block_of_store:
  "block_of h p = Some b \<Longrightarrow> off + length bytes \<le> length b \<Longrightarrow>
   block_of (store h p off bytes) p = Some (take off b @ bytes @ drop (off + length bytes) b)"
  by (auto simp: store_def block_of_def split: option.splits)

lemma load_block_of:
  "block_of h p = Some b \<Longrightarrow> load h p off n = take n (drop off b)"
  by (auto simp: load_def block_of_def split: option.splits)

lemma default_allocator_valid [simp]: "rcutils_allocator_is_valid rcutils_get_default_allocator"
  by (simp add: rcutils_allocator_is_valid_def rcutils_get_default_allocator_def)

lemma default_allocate_block:
  "default_allocate sz h = (p, h') \<Longrightarrow> p \<noteq> None \<Longrightarrow>
   \<exists>b. block_of h' p = Some b \<and> length b = unat sz"
  by (auto simp: default_allocate_def Let_def next_outcome_def new_block_def block_of_def
      split: prod.splits if_splits list.splits)

lemma default_reallocate_block:
  assumes "default_reallocate p0 sz h = (p, h')" and "p \<noteq> None"
  shows "\<exists>b. block_of h' p = Some b \<and> length b = unat sz \<and>
           (\<forall>b0. block_of h p0 = Some b0 \<longrightarrow>
                 take (min (length b0) (unat sz)) b = take (min (length b0) (unat sz)) b0)"
proof (cases p0)
  case None
  with assms show ?thesis
    using default_allocate_block [of sz h p h']
    by (auto simp: default_reallocate_def block_of_def)
next
  case (Some a)
  obtain ok h1 where no: "next_outcome h = (ok, h1)" by (cases "next_outcome h")
  then have bl: "blocks h1 = blocks h"
    by (auto simp: next_outcome_def split: list.splits)
  from assms Some no have ok: ok
    by (auto simp: default_reallocate_def Let_def split: if_splits)
  let ?old = "case blocks h1 a of None \<Rightarrow> [] | Some b \<Rightarrow> b"
  let ?new = "take (unat sz) ?old @ map (junk h1) [length ?old..<unat sz]"
  from assms Some no ok
  have nb: "new_block ?new (h1\<lparr>blocks := (blocks h1)(a := None)\<rparr>) = (p, h')"
    by (simp add: default_reallocate_def Let_def)
  then have b: "block_of h' p = Some ?new" by (rule block_of_new_block)
  have len: "length ?new = unat sz" by auto
  have pre: "take (min (length b0) (unat sz)) ?new = take (min (length b0) (unat sz)) b0"
    if "block_of h p0 = Some b0" for b0
    using that Some bl by (simp add: block_of_def min_def)
  from b len pre show ?thesis by blast
qed

lemma default_allocator_conforms: "allocator_conforms rcutils_get_default_allocator"
proof -
  have "\<exists>b. block_of (snd (default_allocate sz h)) (fst (default_allocate sz h)) = Some b \<and>
             length b = unat sz"
    if "fst (default_allocate sz h) \<noteq> None" for sz h
    using default_allocate_block [of sz h "fst (default_allocate sz h)" "snd (default_allocate sz h)"]
      that by simp
  moreover have "\<exists>b. block_of (snd (default_reallocate p0 sz h)) (fst (default_reallocate p0 sz h))
                    = Some b \<and> length b = unat sz \<and>
                  (\<forall>b0. block_of h p0 = Some b0 \<longrightarrow>
                     take (min (length b0) (unat sz)) b = take (min (length b0) (unat sz)) b0)"
    if "fst (default_reallocate p0 sz h) \<noteq> None" for p0 sz h
    using default_reallocate_block [of p0 sz h "fst (default_reallocate p0 sz h)"
        "snd (default_reallocate p0 sz h)"] that by simp
  ultimately show ?thesis
    by (simp add: allocator_conforms_def rcutils_get_default_allocator_def)
qed

lemma allocator_conforms_allocate:
  assumes "allocator_conforms a" and "the (allocate a) sz h = (p, h')" and "p \<noteq> None"
  shows "\<exists>b. block_of h' p = Some b \<and> length b = unat sz"
  using assms unfolding allocator_conforms_def
  by (metis fst_conv snd_conv)

lemma allocator_conforms_reallocate:
  assumes "allocator_conforms a" and "the (reallocate a) p0 sz h = (p, h')" and "p \<noteq> None"
  shows "\<exists>b. block_of h' p = Some b \<and> length b = unat sz \<and>
           (\<forall>b0. block_of h p0 = Some b0 \<longrightarrow>
                 take (min (length b0) (unat sz)) b = take (min (length b0) (unat sz)) b0)"
proof -
  from assms(1) have "fst (the (reallocate a) p0 sz h) \<noteq> None \<longrightarrow>
         (\<exists>b. block_of (snd (the (reallocate a) p0 sz h)) (fst (the (reallocate a) p0 sz h))
                = Some b \<and>
              length b = unat sz \<and>
              (\<forall>b0. block_of h p0 = Some b0 \<longrightarrow>
                 take (min (length b0) (unat sz)) b = take (min (length b0) (unat sz)) b0))"
    unfolding allocator_conforms_def by blast
  with assms(2,3) show ?thesis by simp
qed

lemma char_array_init_owned:
  assumes "allocator_conforms a"
      and "rcutils_char_array_init ca0 capacity a h0 = (RCUTILS_RET_OK, ca, h)"
  shows "char_array_owned ca h" and "buffer_length ca = 0" and "allocator ca = a"
proof -
  show "buffer_length ca = 0" using assms(2) by (auto dest: char_array_init_length)
  show "allocator ca = a" using assms(2)
    by (auto simp: rcutils_char_array_init_def Let_def split: if_splits prod.splits)
  show "char_array_owned ca h"
  proof (cases "capacity = 0")
    case True
    with assms(2) show ?thesis
      by (auto simp: rcutils_char_array_init_def Let_def char_array_owned_def
          split: if_splits prod.splits)
  next
    case False
    then have pos: "0 < capacity" by (simp add: word_neq_0_conv)
    obtain p h1 where al: "the (allocate a) capacity h0 = (p, h1)"
      by (cases "the (allocate a) capacity h0")
    with assms(2) pos have p: "p \<noteq> None"
      and ca: "ca = ca0\<lparr>owns_buffer := True, buffer_length := 0, buffer_capacity := capacity,
                         allocator := a, buffer := p\<rparr>"
      and h: "h = store h1 p 0 [CHR 0x00]"
      by (auto simp: rcutils_char_array_init_def Let_def split: if_splits)
    from allocator_conforms_allocate [OF assms(1) al p] obtain b
      where b: "block_of h1 p = Some b" "length b = unat capacity" by blast
    from False have "1 \<le> unat capacity" by (simp add: unat_gt_0 Suc_leI)
    with b have "block_of h p = Some (take 0 b @ [CHR 0x00] @ drop (0 + length [CHR 0x00]) b)"
      unfolding h by (intro block_of_store) auto
    with b \<open>1 \<le> unat capacity\<close> show ?thesis by (auto simp: char_array_owned_def ca)
  qed
qed

lemma char_array_resize_owned:
  assumes ow: "char_array_owned ca0 h0"
      and cf: "allocator_conforms (allocator ca0)"
      and rs: "rcutils_char_array_resize ca0 new_size h0 = (RCUTILS_RET_OK, ca, h)"
      and ne: "new_size \<noteq> buffer_capacity ca0"
  shows "owns_buffer ca \<and> allocator ca = allocator ca0 \<and>
         buffer_capacity ca = new_size \<and>
         buffer_length ca = MIN_macro new_size (buffer_length ca0) \<and>
         (\<exists>b. block_of h (buffer ca) = Some b \<and> length b = unat new_size \<and>
              (\<forall>b0. block_of h0 (buffer ca0) = Some b0 \<longrightarrow>
                 take (min (length b0) (unat new_size)) b
                   = take (min (length b0) (unat new_size)) b0))"
proof -
  from ow have o: "owns_buffer ca0" by (auto simp: char_array_owned_def)
  from rs ne have v: "rcutils_allocator_is_valid (allocator ca0)"
    by (auto simp: rcutils_char_array_resize_def split: if_splits)
  obtain p h1 where re: "the (reallocate (allocator ca0)) (buffer ca0) new_size h0 = (p, h1)"
    by (cases "the (reallocate (allocator ca0)) (buffer ca0) new_size h0")
  have rf: "rcutils_reallocf (buffer ca0) (new_size * 1) (allocator ca0) h0
              = (if p = None then (None, the (deallocate (allocator ca0)) (buffer ca0) h1)
                 else (p, h1))"
    using re v by (simp add: rcutils_reallocf_def)
  from rs ne o v rf have p: "p \<noteq> None" and h: "h = h1"
    and ca: "ca = ca0\<lparr>buffer := p, buffer_capacity := new_size,
                       buffer_length := MIN_macro new_size (buffer_length ca0)\<rparr>"
    by (auto simp: rcutils_char_array_resize_def Let_def split: if_splits)
  from allocator_conforms_reallocate [OF cf re p] o show ?thesis
    unfolding h ca by simp
qed

lemma char_array_expand_owned:
  assumes ow: "char_array_owned ca0 h0"
      and cf: "allocator_conforms (allocator ca0)"
      and inv: "buffer_length ca0 \<le> buffer_capacity ca0"
      and ex: "rcutils_char_array_expand_as_needed ca0 n h0 = (RCUTILS_RET_OK, ca, h)"
      and n: "n \<noteq> 0"
  shows "char_array_owned ca h"
    and "n \<le> buffer_capacity ca"
    and "buffer_length ca = buffer_length ca0"
    and "\<exists>b. block_of h (buffer ca) = Some b \<and> length b = unat (buffer_capacity ca)"
    and "k \<le> unat (buffer_length ca0) \<Longrightarrow> load h (buffer ca) 0 k = load h0 (buffer ca0) 0 k"
    and "allocator ca = allocator ca0"
proof -
  show le: "n \<le> buffer_capacity ca" using ex by (rule char_array_expand_ok(1))
  have "char_array_owned ca h \<and> buffer_length ca = buffer_length ca0 \<and>
        allocator ca = allocator ca0 \<and>
        (\<exists>b. block_of h (buffer ca) = Some b \<and> length b = unat (buffer_capacity ca)) \<and>
        (k \<le> unat (buffer_length ca0) \<longrightarrow> load h (buffer ca) 0 k = load h0 (buffer ca0) 0 k)"
  proof (cases "n \<le> buffer_capacity ca0")
    case True
    with ex have same: "ca = ca0" "h = h0"
      by (auto simp: rcutils_char_array_expand_as_needed_def)
    from True n have "buffer_capacity ca0 \<noteq> 0" by auto
    with ow same show ?thesis by (auto simp: char_array_owned_def)
  next
    case False
    define m where "m = buffer_capacity ca0 + drop_bit 1 (buffer_capacity ca0)"
    define n' where "n' = (if n < m then m else n)"
    from False have gt: "buffer_capacity ca0 < n'" by (auto simp: n'_def)
    from ex False have rs: "rcutils_char_array_resize ca0 n' h0 = (RCUTILS_RET_OK, ca, h)"
      by (auto simp: rcutils_char_array_expand_as_needed_def Let_def m_def n'_def
          split: if_splits)
    from gt have ne: "n' \<noteq> buffer_capacity ca0" by auto
    from char_array_resize_owned [OF ow cf rs ne] obtain b where
      f: "owns_buffer ca" "allocator ca = allocator ca0"
         "buffer_capacity ca = n'" "buffer_length ca = MIN_macro n' (buffer_length ca0)"
         "block_of h (buffer ca) = Some b" "length b = unat n'"
      and pre: "\<And>b0. block_of h0 (buffer ca0) = Some b0 \<Longrightarrow>
                  take (min (length b0) (unat n')) b = take (min (length b0) (unat n')) b0"
      by blast
    from inv gt have "buffer_length ca0 < n'" by simp
    then have len: "buffer_length ca = buffer_length ca0" using f(4) by (auto simp: MIN_macro_def)
    have o: "char_array_owned ca h" using f by (auto simp: char_array_owned_def)
    have ld: "load h (buffer ca) 0 k = load h0 (buffer ca0) 0 k" if k: "k \<le> unat (buffer_length ca0)"
    proof (cases "buffer_capacity ca0 = 0")
      case True
      with inv have "buffer_length ca0 = 0" by simp
      with k show ?thesis by (simp add: load_def split: option.splits)
    next
      case False
      with ow obtain b0 where b0: "block_of h0 (buffer ca0) = Some b0"
        "length b0 = unat (buffer_capacity ca0)"
        by (auto simp: char_array_owned_def)
      from gt have "unat (buffer_capacity ca0) \<le> unat n'" by (simp add: word_less_nat_alt)
      with pre [OF b0(1)] b0(2) have eq: "take (length b0) b = take (length b0) b0"
        by (simp add: min_def)
      from k inv b0(2) have kl: "k \<le> length b0" by (simp add: word_le_nat_alt)
      then have "take k b = take k (take (length b0) b)" by (simp add: min_def)
      also have "\<dots> = take k (take (length b0) b0)" by (simp only: eq)
      also have "\<dots> = take k b0" using kl by (simp add: min_def)
      finally have "take k b = take k b0" .
      with f(5) b0(1) show ?thesis by (simp add: load_block_of)
    qed
    from o len f ld show ?thesis by auto
  qed
  then show "char_array_owned ca h"
    and "buffer_length ca = buffer_length ca0"
    and "\<exists>b. block_of h (buffer ca) = Some b \<and> length b = unat (buffer_capacity ca)"
    and "k \<le> unat (buffer_length ca0) \<Longrightarrow> load h (buffer ca) 0 k = load h0 (buffer ca0) 0 k"
    and "allocator ca = allocator ca0"
    by blast+
qed

lemma char_array_strcat_content:
  assumes ow: "char_array_owned ca0 h0"
      and cf: "allocator_conforms (allocator ca0)"
      and inv: "buffer_length ca0 \<le> buffer_capacity ca0"
      and sc: "rcutils_char_array_strcat ca0 s h0 = (RCUTILS_RET_OK, ca, h)"
      and cur: "cur = (if buffer_length ca0 = 0 then 0 else unat (buffer_length ca0) - 1)"
      and bound: "cur + strlen s + 1 < 2 ^ 64"
  shows "char_array_owned ca h"
    and "buffer_length ca \<le> buffer_capacity ca"
    and "unat (buffer_length ca) = cur + strlen s + 1"
    and "load h (buffer ca) 0 (unat (buffer_length ca))
           = load h0 (buffer ca0) 0 cur @ cstr s @ [CHR 0x00]"
    and "allocator ca = allocator ca0"
proof -
  define n :: size_t where "n = of_nat (strlen s)"
  define c :: size_t where "c = (if buffer_length ca0 = 0 then 0 else buffer_length ca0 - 1)"
  define nl :: size_t where "nl = c + n + 1"
  have un: "unat n = strlen s" using bound by (simp add: n_def unat_of_nat)
  have uc: "unat c = cur"
  proof (cases "buffer_length ca0 = 0")
    case True then show ?thesis by (simp add: c_def cur)
  next
    case False
    then have "1 \<le> buffer_length ca0" by (simp add: word_le_nat_alt unat_gt_0 Suc_leI)
    then have "unat (buffer_length ca0 - 1) = unat (buffer_length ca0) - 1"
      by (simp add: unat_sub)
    with False show ?thesis by (simp add: c_def cur)
  qed
  have ucn: "unat (c + n) = cur + strlen s"
    using bound un uc by (simp add: unat_add_lem [THEN iffD1])
  have unl: "unat nl = cur + strlen s + 1"
    unfolding nl_def using bound ucn by (simp add: unat_add_lem [THEN iffD1])
  have nl0: "nl \<noteq> 0" using unl by (metis Suc_eq_plus1 nat.distinct(1) unat_0)
  have nl1: "unat (nl - 1) = cur + strlen s" using ucn by (simp add: nl_def)
  obtain ret ca1 h1 where ex: "rcutils_char_array_expand_as_needed ca0 nl h0 = (ret, ca1, h1)"
    by (cases "rcutils_char_array_expand_as_needed ca0 nl h0")
  from sc ex have ret: "ret = RCUTILS_RET_OK"
    and ca: "ca = ca1\<lparr>buffer_length := nl\<rparr>"
    and h: "h = store (store h1 (buffer ca1) (unat c) (take (unat n) s))
                  (buffer ca1) (unat (nl - 1)) [CHR 0x00]"
    by (auto simp: rcutils_char_array_strcat_def rcutils_char_array_strncat_def Let_def
        n_def c_def nl_def split: if_splits)
  note ex' = ex [unfolded ret]
  have ow1: "char_array_owned ca1 h1" using ow cf inv ex' nl0 by (rule char_array_expand_owned(1))
  have le1: "nl \<le> buffer_capacity ca1" using ow cf inv ex' nl0 by (rule char_array_expand_owned(2))
  have al1: "allocator ca1 = allocator ca0" using ow cf inv ex' nl0 by (rule char_array_expand_owned(6))
  obtain b where b: "block_of h1 (buffer ca1) = Some b" "length b = unat (buffer_capacity ca1)"
    using char_array_expand_owned(4) [OF ow cf inv ex' nl0] by blast
  have curle: "cur \<le> unat (buffer_length ca0)" by (simp add: cur)
  have pre: "load h1 (buffer ca1) 0 cur = load h0 (buffer ca0) 0 cur"
    using ow cf inv ex' nl0 curle by (rule char_array_expand_owned(5))
  have lb: "cur + strlen s + 1 \<le> length b"
    using le1 b(2) unl by (simp add: word_le_nat_alt)
  define b2 where "b2 = take cur b @ cstr s @ drop (cur + strlen s) b"
  have ts: "take (unat n) s = cstr s" by (simp add: un take_strlen_cstr)
  have b2: "block_of (store h1 (buffer ca1) (unat c) (take (unat n) s)) (buffer ca1) = Some b2"
    using block_of_store [OF b(1), of cur "cstr s"] lb
    by (simp add: ts uc strlen_def b2_def)
  have l2: "length b2 = length b" using lb by (simp add: strlen_def b2_def)
  define b3 where "b3 = take (cur + strlen s) b2 @ [CHR 0x00] @ drop (cur + strlen s + 1) b2"
  have b3: "block_of h (buffer ca1) = Some b3"
    unfolding h nl1 b3_def using block_of_store [OF b2, of "cur + strlen s" "[CHR 0x00]"] lb l2
    by simp
  have l3: "length b3 = length b" using lb l2 by (simp add: b3_def)
  have own: "owns_buffer ca1"
    using ow1 by (auto simp: char_array_owned_def)
  show "allocator ca = allocator ca0" using al1 by (simp add: ca)
  have "block_of h (buffer ca) = Some b3 \<and> length b3 = unat (buffer_capacity ca)"
    using b3 l3 b(2) by (simp add: ca)
  then show "char_array_owned ca h"
    unfolding char_array_owned_def using own by (auto simp: ca)
  show "buffer_length ca \<le> buffer_capacity ca" using le1 by (simp add: ca)
  show "unat (buffer_length ca) = cur + strlen s + 1" using unl by (simp add: ca)
  have "take (cur + strlen s + 1) b3 = take cur b @ cstr s @ [CHR 0x00]"
    using lb by (simp add: strlen_def b3_def b2_def)
  moreover have "take cur b = load h0 (buffer ca0) 0 cur"
    using pre b(1) by (simp add: load_block_of)
  ultimately show "load h (buffer ca) 0 (unat (buffer_length ca))
           = load h0 (buffer ca0) 0 cur @ cstr s @ [CHR 0x00]"
    using b3 unl by (simp add: ca load_block_of)
qed

lemmas char_array_eval =
  rcutils_char_array_init_def rcutils_char_array_strcat_def
  rcutils_char_array_strncat_def rcutils_char_array_expand_as_needed_def
  rcutils_char_array_resize_def rcutils_reallocf_def rcutils_allocator_is_valid_def
  rcutils_get_default_allocator_def rcutils_get_zero_initialized_char_array_def
  rcutils_get_zero_initialized_allocator_def
  default_allocate_def default_reallocate_def default_deallocate_def
  next_outcome_def new_block_def store_def load_def block_of_def heap_empty_def MIN_macro_def
  strlen_def cstr_def Let_def

lemma strcat_run_init_ok: "fst strcat_run_init = RCUTILS_RET_OK"
  unfolding strcat_run_init_def by (simp add: char_array_eval)

lemma strcat_run_a_ok: "fst strcat_run_a = RCUTILS_RET_OK"
  unfolding strcat_run_a_def strcat_run_init_def by (simp add: char_array_eval)

lemma strcat_run_b_ok: "fst strcat_run_b = RCUTILS_RET_OK"
  unfolding strcat_run_b_def strcat_run_a_def strcat_run_init_def by (simp add: char_array_eval)

lemma strcat_run_b_length:
  "buffer_length (fst (snd strcat_run_b)) = 5 \<and> buffer_capacity (fst (snd strcat_run_b)) = 5"
  unfolding strcat_run_b_def strcat_run_a_def strcat_run_init_def by (simp add: char_array_eval)

text \<open>
  C8. A char array initialised with any allocator that is valid and does what
  \<open>allocator_conforms\<close> asks of \<open>allocate\<close> and \<open>reallocate\<close>, then \<open>strcat(a)\<close> and
  \<open>strcat(b)\<close>, all three returning OK: the first \<open>buffer_length\<close> bytes of the buffer
  are the string \<open>a\<close>, the string \<open>b\<close> and one terminating zero, and \<open>buffer_length\<close>
  counts them. An initialisation that returns OK has found the allocator valid. The two
  strings lie in memory, so their lengths do not add up to \<open>2^64\<close>.
\<close>

theorem char_array_strcat_strcat:
  assumes cf: "allocator_conforms al"
      and i: "rcutils_char_array_init ca0 capacity al h0 = (RCUTILS_RET_OK, ca1, h1)"
      and a: "rcutils_char_array_strcat ca1 a h1 = (RCUTILS_RET_OK, ca2, h2)"
      and b: "rcutils_char_array_strcat ca2 b h2 = (RCUTILS_RET_OK, ca3, h3)"
      and bound: "strlen a + strlen b + 1 < 2 ^ 64"
  shows "load h3 (buffer ca3) 0 (unat (buffer_length ca3)) = cstr a @ cstr b @ [CHR 0x00] \<and>
         unat (buffer_length ca3) = strlen a + strlen b + 1"
proof -
  note o1 = char_array_init_owned [OF cf i]
  have cf1: "allocator_conforms (allocator ca1)" using cf o1(3) by simp
  have inv1: "buffer_length ca1 \<le> buffer_capacity ca1" using o1(2) by simp
  have c1: "(0::nat) = (if buffer_length ca1 = 0 then 0 else unat (buffer_length ca1) - 1)"
    using o1(2) by simp
  have bd1: "0 + strlen a + 1 < (2::nat) ^ 64" using bound by simp
  note s1 = char_array_strcat_content [OF o1(1) cf1 inv1 a c1 bd1]
  have cf2: "allocator_conforms (allocator ca2)" using cf1 s1(5) by simp
  have l1: "load h1 (buffer ca1) 0 0 = []" by (simp add: load_def split: option.splits)
  have n2: "buffer_length ca2 \<noteq> 0" using s1(3) by (metis add_is_0 unat_0 zero_neq_one)
  have c2: "strlen a = (if buffer_length ca2 = 0 then 0 else unat (buffer_length ca2) - 1)"
    using n2 s1(3) by simp
  have bd2: "strlen a + strlen b + 1 < (2::nat) ^ 64" using bound by simp
  note s2 = char_array_strcat_content [OF s1(1) cf2 s1(2) b c2 bd2]
  obtain bl where bl: "load h2 (buffer ca2) 0 (unat (buffer_length ca2)) = bl"
    "bl = cstr a @ [CHR 0x00]" using s1(4) l1 by simp
  have "load h2 (buffer ca2) 0 (strlen a) = take (strlen a) (load h2 (buffer ca2) 0 (strlen a + 1))"
    by (simp add: load_def min_def split: option.splits)
  also have "\<dots> = cstr a" using bl s1(3) by (simp add: strlen_def)
  finally show ?thesis using s2(3,4) by simp
qed

theorem char_array_strcat_strcat_witness:
  "allocator_conforms rcutils_get_default_allocator \<and>
   fst strcat_run_init = RCUTILS_RET_OK \<and> fst strcat_run_a = RCUTILS_RET_OK \<and>
   fst strcat_run_b = RCUTILS_RET_OK \<and>
   load (snd (snd strcat_run_b)) (buffer (fst (snd strcat_run_b))) 0
     (unat (buffer_length (fst (snd strcat_run_b)))) = ''abcd'' @ [CHR 0x00]"
proof -
  have i: "rcutils_char_array_init rcutils_get_zero_initialized_char_array 0
             rcutils_get_default_allocator heap_empty
           = (RCUTILS_RET_OK, fst (snd strcat_run_init), snd (snd strcat_run_init))"
    using strcat_run_init_ok by (simp add: strcat_run_init_def prod_eq_iff)
  have a: "rcutils_char_array_strcat (fst (snd strcat_run_init)) ''ab'' (snd (snd strcat_run_init))
           = (RCUTILS_RET_OK, fst (snd strcat_run_a), snd (snd strcat_run_a))"
    using strcat_run_a_ok by (simp add: strcat_run_a_def prod_eq_iff)
  have b: "rcutils_char_array_strcat (fst (snd strcat_run_a)) ''cd'' (snd (snd strcat_run_a))
           = (RCUTILS_RET_OK, fst (snd strcat_run_b), snd (snd strcat_run_b))"
    using strcat_run_b_ok by (simp add: strcat_run_b_def prod_eq_iff)
  have bound: "strlen ''ab'' + strlen ''cd'' + 1 < 2 ^ 64"
    by (simp add: strlen_def cstr_def)
  have "load (snd (snd strcat_run_b)) (buffer (fst (snd strcat_run_b))) 0
          (unat (buffer_length (fst (snd strcat_run_b)))) = cstr ''ab'' @ cstr ''cd'' @ [CHR 0x00]"
    using char_array_strcat_strcat [OF default_allocator_conforms i a b bound]
    by (rule conjunct1)
  then show ?thesis
    using strcat_run_init_ok strcat_run_a_ok strcat_run_b_ok default_allocator_conforms
    by (simp add: cstr_def)
qed

text \<open>
  C10. Every operation of the char array that returns OK leaves
  \<open>buffer_length \<le> buffer_capacity\<close> if it held before (and \<open>init\<close> establishes it); a
  resize that returns OK has set the capacity to the new size and the length to the
  smaller of the old length and the new size.
\<close>

theorem char_array_length_le_capacity:
  assumes "char_array_run op ca0 h = (RCUTILS_RET_OK, ca, h')"
      and "buffer_length ca0 \<le> buffer_capacity ca0"
  shows "buffer_length ca \<le> buffer_capacity ca \<and>
         (\<forall>new_size. op = Op_resize new_size \<longrightarrow>
            buffer_capacity ca = new_size \<and>
            buffer_length ca = min (buffer_length ca0) new_size)"
proof -
  have "buffer_capacity ca = new_size \<and> buffer_length ca = min (buffer_length ca0) new_size"
    if op: "op = Op_resize new_size" for new_size
  proof -
    from assms(1) op
    have rs: "rcutils_char_array_resize ca0 new_size h = (RCUTILS_RET_OK, ca, h')" by simp
    show ?thesis
    proof (cases "new_size = buffer_capacity ca0")
      case True
      with char_array_resize_ok(3) [OF rs] assms(2) show ?thesis by (simp add: min_def)
    next
      case False
      with char_array_resize_ok(1,2) [OF rs] show ?thesis
        by (simp add: MIN_macro_eq_min min.commute)
    qed
  qed
  with char_array_run_inv [OF assms] show ?thesis by blast
qed

theorem char_array_length_le_capacity_witness:
  "fst resize_run_shrink = RCUTILS_RET_OK \<and>
   buffer_length (fst (snd strcat_run_b)) \<le> buffer_capacity (fst (snd strcat_run_b)) \<and>
   buffer_length (fst (snd strcat_run_b)) = 5 \<and>
   buffer_capacity (fst (snd resize_run_shrink)) = 2 \<and>
   buffer_length (fst (snd resize_run_shrink)) = 2"
proof -
  have ok: "fst resize_run_shrink = RCUTILS_RET_OK"
    unfolding resize_run_shrink_def strcat_run_b_def strcat_run_a_def strcat_run_init_def
    by (simp add: char_array_eval)
  then have r: "char_array_run (Op_resize 2) (fst (snd strcat_run_b)) (snd (snd strcat_run_b))
           = (RCUTILS_RET_OK, fst (snd resize_run_shrink), snd (snd resize_run_shrink))"
    by (simp add: resize_run_shrink_def prod_eq_iff)
  have inv: "buffer_length (fst (snd strcat_run_b)) \<le> buffer_capacity (fst (snd strcat_run_b))"
    using strcat_run_b_length by simp
  from char_array_length_le_capacity [OF r inv] ok inv strcat_run_b_length
  show ?thesis by simp
qed

text \<open>
  What \<open>rcutils_char_array_resize\<close> does when the reallocation of an owned buffer fails.
  The buffer is reallocated through \<open>rcutils_reallocf\<close>, which hands the old buffer to
  the allocator's \<open>deallocate\<close> when \<open>reallocate\<close> returns \<open>NULL\<close>. The resize then
  returns \<open>RCUTILS_RET_BAD_ALLOC\<close> and does not touch the struct, so that \<open>buffer\<close> still
  holds the pointer that was given to \<open>deallocate\<close>.
\<close>

lemma rcutils_char_array_resize_reallocation_fails:
  assumes "owns_buffer ca"
      and "rcutils_allocator_is_valid (allocator ca)"
      and "new_size \<noteq> 0"
      and "new_size \<noteq> buffer_capacity ca"
      and "fst (the (reallocate (allocator ca)) (buffer ca) new_size h) = None"
  shows "rcutils_char_array_resize ca new_size h =
           (RCUTILS_RET_BAD_ALLOC, ca,
            the (deallocate (allocator ca)) (buffer ca)
              (snd (the (reallocate (allocator ca)) (buffer ca) new_size h)))"
  using assms
  by (simp add: rcutils_char_array_resize_def rcutils_reallocf_def Let_def split_def)

lemma resize_run_init_eval:
  "fst resize_run_init = RCUTILS_RET_OK \<and>
   owns_buffer (fst (snd resize_run_init)) \<and>
   allocator (fst (snd resize_run_init)) = rcutils_get_default_allocator \<and>
   buffer (fst (snd resize_run_init)) = Some 0 \<and>
   buffer_capacity (fst (snd resize_run_init)) = 4 \<and>
   blocks (snd (snd resize_run_init)) 0 = Some (CHR 0x00 # ''###'') \<and>
   outcomes (snd (snd resize_run_init)) = [False]"
  unfolding resize_run_init_def by (simp add: char_array_eval upt_rec)

text \<open>
  C3 says that a resize that fails to reallocate returns
  \<open>RCUTILS_RET_BAD_ALLOC\<close> without freeing the existing buffer. In the run
  \<open>resize_run_fail\<close> the array owns a buffer of 4 bytes, which is a live object before
  the resize to 8 bytes; the resize returns \<open>RCUTILS_RET_BAD_ALLOC\<close>, and afterwards the
  object is gone while the struct still owns the pointer to it, with the capacity 4.
\<close>

theorem char_array_resize_failure_frees_buffer:
  "fst resize_run_init = RCUTILS_RET_OK \<and>
   owns_buffer (fst (snd resize_run_init)) \<and>
   block_of (snd (snd resize_run_init)) (buffer (fst (snd resize_run_init)))
     = Some (CHR 0x00 # ''###'') \<and>
   fst resize_run_fail = RCUTILS_RET_BAD_ALLOC \<and>
   owns_buffer (fst (snd resize_run_fail)) \<and>
   buffer (fst (snd resize_run_fail)) = buffer (fst (snd resize_run_init)) \<and>
   buffer_capacity (fst (snd resize_run_fail)) = 4 \<and>
   block_of (snd (snd resize_run_fail)) (buffer (fst (snd resize_run_fail))) = None"
  unfolding resize_run_fail_def resize_run_init_def by (simp add: char_array_eval upt_rec)

subsection \<open>Hash map: searching a bucket\<close>

text \<open>
  The recursive functions of the hash map are unfolded by hand. \<open>find_from\<close> is the loop of
  \<open>hash_map_find\<close> over one bucket, and \<open>List.find\<close> what it finds.
\<close>

declare hash_map_rehash_bucket.simps [simp del]
declare hash_map_rehash_map.simps [simp del]
declare next_power_of_two_loop.simps [simp del]
declare hash_map_find_loop.simps [simp del]

lemma nat_and_pow2_minus_1: "(x::nat) AND (2 ^ n - 1) = x mod 2 ^ n"
  by (simp add: take_bit_eq_mod [symmetric] take_bit_eq_mask mask_eq_exp_minus_1)

lemma find_from_None: "find_from P xs i = None \<longleftrightarrow> (\<forall>x \<in> set xs. \<not> P x)"
  by (induction xs arbitrary: i) auto

lemma find_from_find: "map_option snd (find_from P xs i) = List.find P xs"
  by (induction xs arbitrary: i) auto

lemma find_from_Some:
  "find_from P xs i = Some (j, x) \<Longrightarrow>
     \<exists>n. j = i + n \<and> n < length xs \<and> xs ! n = x \<and> P x \<and> (\<forall>l < n. \<not> P (xs ! l))"
proof (induction xs arbitrary: i)
  case Nil
  then show ?case by simp
next
  case (Cons y ys)
  show ?case
  proof (cases "P y")
    case True
    with Cons.prems show ?thesis by auto
  next
    case False
    with Cons.prems have "find_from P ys (i + 1) = Some (j, x)" by simp
    from Cons.IH [OF this] obtain n where
      n: "j = i + 1 + n" "n < length ys" "ys ! n = x" "P x" "\<forall>l < n. \<not> P (ys ! l)" by blast
    have "\<forall>l < Suc n. \<not> P ((y # ys) ! l)"
      using n(5) False by (auto simp: nth_Cons')
    with n show ?thesis by (intro exI [of _ "Suc n"]) auto
  qed
qed

lemma find_append:
  "List.find P (xs @ ys) = (case List.find P xs of None \<Rightarrow> List.find P ys | Some x \<Rightarrow> Some x)"
  by (induction xs) auto

lemma find_filter_implied:
  "(\<And>x. x \<in> set xs \<Longrightarrow> P x \<Longrightarrow> Q x) \<Longrightarrow> List.find P (filter Q xs) = List.find P xs"
  by (induction xs) auto

lemma find_none_matching: "(\<And>x. x \<in> set xs \<Longrightarrow> \<not> P x) \<Longrightarrow> List.find P xs = None"
  by (simp add: find_None_iff)

lemma find_concat_single:
  assumes "i < length xss"
      and "\<And>j x. j < length xss \<Longrightarrow> j \<noteq> i \<Longrightarrow> x \<in> set (xss ! j) \<Longrightarrow> \<not> P x"
  shows "List.find P (concat xss) = List.find P (xss ! i)"
proof -
  have xss: "xss = take i xss @ (xss ! i) # drop (Suc i) xss"
    using assms(1) by (simp add: id_take_nth_drop)
  have a: "List.find P (concat (take i xss)) = None"
  proof (rule find_none_matching)
    fix x assume "x \<in> set (concat (take i xss))"
    then obtain ys where ys: "ys \<in> set (take i xss)" "x \<in> set ys" by auto
    then obtain j where "j < length (take i xss)" "take i xss ! j = ys"
      by (auto simp: in_set_conv_nth)
    then have "j < i" "j < length xss" "xss ! j = ys" by auto
    with assms(2) [of j x] ys(2) show "\<not> P x" by auto
  qed
  have b: "List.find P (concat (drop (Suc i) xss)) = None"
  proof (rule find_none_matching)
    fix x assume "x \<in> set (concat (drop (Suc i) xss))"
    then obtain ys where ys: "ys \<in> set (drop (Suc i) xss)" "x \<in> set ys" by auto
    then obtain j where "j < length (drop (Suc i) xss)" "drop (Suc i) xss ! j = ys"
      by (auto simp: in_set_conv_nth)
    then have "Suc i + j < length xss" "xss ! (Suc i + j) = ys" by auto
    with assms(2) [of "Suc i + j" x] ys(2) show "\<not> P x" by auto
  qed
  have "List.find P (concat xss)
          = List.find P (concat (take i xss) @ (xss ! i) @ concat (drop (Suc i) xss))"
    by (subst xss) simp
  also have "\<dots> = List.find P (xss ! i)"
    by (simp add: find_append a b split: option.splits)
  finally show ?thesis .
qed

lemma hash_map_find_loop_find_from:
  "i \<le> length (al_list impl) \<Longrightarrow>
   hash_map_find_loop cmp (Some impl) key key_hash (length (al_list impl)) i
     = find_from (\<lambda>e. hashed_key e = key_hash \<and> cmp (entry_key e) key = 0)
         (drop i (al_list impl)) i"
proof (induction "length (al_list impl) - i" arbitrary: i)
  case 0
  then show ?case by (subst hash_map_find_loop.simps) simp
next
  case (Suc n)
  then have lt: "i < length (al_list impl)" by simp
  then have dr: "drop i (al_list impl) = (al_list impl ! i) # drop (i + 1) (al_list impl)"
    by (simp add: Cons_nth_drop_Suc)
  have "n = length (al_list impl) - (i + 1)" using Suc(2) by simp
  from Suc(1) [OF this] lt
  have ih: "hash_map_find_loop cmp (Some impl) key key_hash (length (al_list impl)) (i + 1)
     = find_from (\<lambda>e. hashed_key e = key_hash \<and> cmp (entry_key e) key = 0)
         (drop (i + 1) (al_list impl)) (i + 1)" by simp
  show ?case
    by (subst hash_map_find_loop.simps, subst dr)
       (use lt ih in \<open>auto simp: rcutils_array_list_get_def\<close>)
qed

subsection \<open>Hash map: \<open>hash_map_find\<close>, \<open>get\<close> and \<open>key_exists\<close> on a map that satisfies the invariant\<close>

lemma hash_map_inv_index:
  assumes "hash_map_inv hm"
  shows "unat h AND (hm_capacity hm - 1) = unat h mod hm_capacity hm"
    and "unat h mod hm_capacity hm < length (hm_map hm)"
    and "0 < hm_capacity hm"
    and "unat h AND (hm_capacity hm - Suc 0) = unat h mod hm_capacity hm"
proof -
  from assms obtain n where n: "hm_capacity hm = 2 ^ n" and l: "length (hm_map hm) = hm_capacity hm"
    by (auto simp: hash_map_inv_def)
  show a: "unat h AND (hm_capacity hm - 1) = unat h mod hm_capacity hm"
    unfolding n by (rule nat_and_pow2_minus_1)
  from a show "unat h AND (hm_capacity hm - Suc 0) = unat h mod hm_capacity hm" by simp
  show "0 < hm_capacity hm" by (simp add: n)
  then show "unat h mod hm_capacity hm < length (hm_map hm)" by (simp add: l)
qed

lemma hash_map_find_eq:
  assumes "hash_map_inv hm"
  shows "hash_map_find hm k =
           (case find_from (key_matches hm k)
                   (bucket_entries (hm_map hm ! (unat (hm_key_hashing_func hm k) mod hm_capacity hm))) 0 of
              None \<Rightarrow> (False, hm_key_hashing_func hm k,
                        unat (hm_key_hashing_func hm k) mod hm_capacity hm, None)
            | Some f \<Rightarrow> (True, hm_key_hashing_func hm k,
                          unat (hm_key_hashing_func hm k) mod hm_capacity hm, Some f))"
proof -
  let ?kh = "hm_key_hashing_func hm k"
  let ?mi = "unat ?kh mod hm_capacity hm"
  have mi: "unat ?kh AND (hm_capacity hm - Suc 0) = ?mi"
    using assms by (rule hash_map_inv_index(4))
  have km: "key_matches hm k = (\<lambda>e. hashed_key e = ?kh \<and> hm_key_cmp_func hm (entry_key e) k = 0)"
    by (simp add: key_matches_def fun_eq_iff)
  show ?thesis
  proof (cases "hm_map hm ! ?mi")
    case None
    then show ?thesis by (simp add: hash_map_find_def Let_def mi bucket_entries_def)
  next
    case (Some impl)
    have "hash_map_find_loop (hm_key_cmp_func hm) (Some impl) k ?kh (length (al_list impl)) 0
            = find_from (key_matches hm k) (al_list impl) 0"
      using hash_map_find_loop_find_from [of 0 impl "hm_key_cmp_func hm" k ?kh]
      by (simp add: km)
    with Some show ?thesis
      by (simp add: hash_map_find_def Let_def mi bucket_entries_def rcutils_array_list_get_size_def
          split: option.splits)
  qed
qed

lemma hash_map_lookup_find_from:
  "hash_map_lookup hm k =
     map_option snd
       (find_from (key_matches hm k)
          (bucket_entries (hm_map hm ! (unat (hm_key_hashing_func hm k) mod hm_capacity hm))) 0)"
  by (simp add: hash_map_lookup_def find_from_find)

lemma all_entries_empty:
  assumes "length (all_entries buckets) = 0" and "i < length buckets"
  shows "bucket_entries (buckets ! i) = []"
proof -
  from assms(1) have "\<forall>xs \<in> set (map bucket_entries buckets). xs = []"
    by (simp add: all_entries_def)
  moreover have "bucket_entries (buckets ! i) \<in> set (map bucket_entries buckets)"
    using assms(2) by (metis length_map nth_map nth_mem)
  ultimately show ?thesis by blast
qed

lemma hash_map_lookup_empty:
  assumes "hash_map_inv hm" and "hm_size hm = 0"
  shows "hash_map_lookup hm k = None"
proof -
  from assms have "length (all_entries (hm_map hm)) = 0" by (simp add: hash_map_inv_def)
  from all_entries_empty [OF this hash_map_inv_index(2) [OF assms(1)],
      of "hm_key_hashing_func hm k"]
  show ?thesis by (simp add: hash_map_lookup_def)
qed

lemma rcutils_hash_map_get_lookup:
  assumes "hash_map_inv hm"
  shows "rcutils_hash_map_get (Some hm) k =
           (case hash_map_lookup hm k of None \<Rightarrow> (RCUTILS_RET_NOT_FOUND, None)
            | Some e \<Rightarrow> (RCUTILS_RET_OK, Some (entry_value e)))"
proof (cases "hm_size hm = 0")
  case True
  with hash_map_lookup_empty [OF assms True] show ?thesis
    by (simp add: rcutils_hash_map_get_def)
next
  case False
  then show ?thesis
    using assms
    by (simp add: rcutils_hash_map_get_def hash_map_find_eq hash_map_lookup_find_from
        split: option.splits)
qed

lemma rcutils_hash_map_key_exists_lookup:
  assumes "hash_map_inv hm"
  shows "rcutils_hash_map_key_exists (Some hm) k \<longleftrightarrow> hash_map_lookup hm k \<noteq> None"
proof (cases "hm_size hm = 0")
  case True
  with hash_map_lookup_empty [OF assms True] show ?thesis
    by (simp add: rcutils_hash_map_key_exists_def)
next
  case False
  then show ?thesis
    using assms
    by (simp add: rcutils_hash_map_key_exists_def hash_map_find_eq hash_map_lookup_find_from
        split: option.splits)
qed

subsection \<open>Hash map: inserting an entry in a bucket\<close>

lemma alloc_request_cases:
  obtains al' where "alloc_request al = (True, al')" | al' where "alloc_request al = (False, al')"
  by (cases "alloc_request al") (metis (full_types))

lemma array_list_init_None:
  "rcutils_array_list_init None BUCKET_INITIAL_CAP 8 al = (ret, b, al') \<Longrightarrow>
     (ret = RCUTILS_RET_OK \<and> b = Some \<lparr>al_capacity = 2, al_list = [], al_data_size = 8\<rparr>) \<or>
     (ret = RCUTILS_RET_BAD_ALLOC \<and> b = None)"
  by (auto simp: rcutils_array_list_init_def BUCKET_INITIAL_CAP_def Let_def
      split: prod.splits if_splits)

lemma array_list_add_Some:
  "rcutils_array_list_add (Some impl) e al = (ret, b, al') \<Longrightarrow>
     (ret = RCUTILS_RET_OK \<and> (\<exists>impl'. b = Some impl' \<and> al_list impl' = al_list impl @ [e])) \<or>
     (ret = RCUTILS_RET_BAD_ALLOC \<and> b = Some impl \<and> al_capacity impl < length (al_list impl) + 1)"
  by (auto simp: rcutils_array_list_add_def rcutils_array_list_increase_capacity_def Let_def
      split: prod.splits if_splits)

lemma hash_map_insert_entry_cases:
  assumes "hash_map_insert_entry buckets i e al = (ret, buckets', al')"
      and "i < length buckets"
  shows "(ret = RCUTILS_RET_OK \<and> length buckets' = length buckets \<and>
          bucket_entries (buckets' ! i) = bucket_entries (buckets ! i) @ [e] \<and>
          (\<forall>j. j \<noteq> i \<longrightarrow> buckets' ! j = buckets ! j)) \<or>
         (ret = RCUTILS_RET_BAD_ALLOC \<and> buckets' = buckets)"
proof (cases "buckets ! i")
  case None
  obtain r1 b1 al1
    where i0: "rcutils_array_list_init (buckets ! i) BUCKET_INITIAL_CAP 8 al = (r1, b1, al1)"
    by (cases "rcutils_array_list_init (buckets ! i) BUCKET_INITIAL_CAP 8 al")
  then have i1: "rcutils_array_list_init None BUCKET_INITIAL_CAP 8 al = (r1, b1, al1)"
    using None by simp
  from array_list_init_None [OF i1] show ?thesis
  proof
    assume ok: "r1 = RCUTILS_RET_OK \<and> b1 = Some \<lparr>al_capacity = 2, al_list = [], al_data_size = 8\<rparr>"
    obtain r2 b2 al2 where a2: "rcutils_array_list_add b1 e al1 = (r2, b2, al2)"
      by (cases "rcutils_array_list_add b1 e al1")
    with ok have "r2 = RCUTILS_RET_OK \<and> (\<exists>impl'. b2 = Some impl' \<and> al_list impl' = [e])"
      by (auto dest!: array_list_add_Some)
    with assms None i1 ok a2 show ?thesis
      by (auto simp: hash_map_insert_entry_def Let_def bucket_entries_def)
  next
    assume "r1 = RCUTILS_RET_BAD_ALLOC \<and> b1 = None"
    with assms None i1 show ?thesis
      by (auto simp: hash_map_insert_entry_def Let_def list_update_same_conv)
  qed
next
  case (Some impl)
  obtain r2 b2 al2 where a2: "rcutils_array_list_add (Some impl) e al = (r2, b2, al2)"
    by (cases "rcutils_array_list_add (Some impl) e al")
  from array_list_add_Some [OF a2] assms Some a2 show ?thesis
    by (auto simp: hash_map_insert_entry_def Let_def bucket_entries_def list_update_same_conv)
qed

subsection \<open>Hash map: rehashing\<close>

lemma hash_map_rehash_bucket_entries:
  assumes "hash_map_rehash_bucket (Some impl) (length (al_list impl)) bi nc nm al = (ret, nm', al')"
      and "bi \<le> length (al_list impl)" and "length nm = nc" and "0 < nc"
  shows "length nm' = nc \<and>
         (ret = RCUTILS_RET_OK \<longrightarrow>
            (\<forall>j < nc. bucket_entries (nm' ! j) =
               bucket_entries (nm ! j) @
               filter (\<lambda>e. unat (hashed_key e) mod nc = j) (drop bi (al_list impl))))"
  using assms
proof (induction "length (al_list impl) - bi" arbitrary: bi nm al)
  case 0
  then show ?case by (subst (asm) hash_map_rehash_bucket.simps) auto
next
  case (Suc n)
  let ?es = "al_list impl"
  let ?e = "?es ! bi"
  let ?i = "unat (hashed_key ?e) mod nc"
  from Suc have lt: "bi < length ?es" by simp
  then have dr: "drop bi ?es = ?e # drop (bi + 1) ?es" by (simp add: Cons_nth_drop_Suc)
  obtain r1 nm1 al1 where ins: "hash_map_insert_entry nm ?i ?e al = (r1, nm1, al1)"
    by (cases "hash_map_insert_entry nm ?i ?e al")
  have i: "?i < length nm" using Suc.prems by simp
  from hash_map_insert_entry_cases [OF ins i] show ?case
  proof
    assume ok: "r1 = RCUTILS_RET_OK \<and> length nm1 = length nm \<and>
          bucket_entries (nm1 ! ?i) = bucket_entries (nm ! ?i) @ [?e] \<and>
          (\<forall>j. j \<noteq> ?i \<longrightarrow> nm1 ! j = nm ! j)"
    with Suc.prems(1) lt ins
    have rec: "hash_map_rehash_bucket (Some impl) (length ?es) (bi + 1) nc nm1 al1 = (ret, nm', al')"
      by (subst (asm) hash_map_rehash_bucket.simps) (simp add: rcutils_array_list_get_def Let_def)
    have "n = length ?es - (bi + 1)" using Suc(2) by simp
    from Suc(1) [OF this rec] lt ok Suc.prems
    have ih: "length nm' = nc \<and>
         (ret = RCUTILS_RET_OK \<longrightarrow>
            (\<forall>j < nc. bucket_entries (nm' ! j) =
               bucket_entries (nm1 ! j) @
               filter (\<lambda>e. unat (hashed_key e) mod nc = j) (drop (bi + 1) ?es)))"
      by simp
    show ?thesis
    proof (intro conjI impI allI)
      show "length nm' = nc" using ih by simp
    next
      fix j assume r: "ret = RCUTILS_RET_OK" and j: "j < nc"
      with ih have "bucket_entries (nm' ! j) = bucket_entries (nm1 ! j) @
               filter (\<lambda>e. unat (hashed_key e) mod nc = j) (drop (bi + 1) ?es)" by simp
      with ok show "bucket_entries (nm' ! j) = bucket_entries (nm ! j) @
               filter (\<lambda>e. unat (hashed_key e) mod nc = j) (drop bi ?es)"
        by (cases "j = ?i") (simp_all add: dr)
    qed
  next
    assume bad: "r1 = RCUTILS_RET_BAD_ALLOC \<and> nm1 = nm"
    with Suc.prems(1) lt ins have "ret = RCUTILS_RET_BAD_ALLOC" "nm' = nm"
      by (subst (asm) hash_map_rehash_bucket.simps,
          simp add: rcutils_array_list_get_def Let_def)+
    with Suc.prems show ?thesis by simp
  qed
qed

lemma all_entries_drop:
  "mi < length om \<Longrightarrow>
   all_entries (drop mi om) = bucket_entries (om ! mi) @ all_entries (drop (mi + 1) om)"
  by (simp add: all_entries_def Cons_nth_drop_Suc [symmetric])

lemma hash_map_rehash_map_entries:
  assumes "hash_map_rehash_map om (length om) mi nc nm al = (ret, nm', al')"
      and "mi \<le> length om" and "length nm = nc" and "0 < nc"
  shows "length nm' = nc \<and>
         (ret = RCUTILS_RET_OK \<longrightarrow>
            (\<forall>j < nc. bucket_entries (nm' ! j) =
               bucket_entries (nm ! j) @
               filter (\<lambda>e. unat (hashed_key e) mod nc = j) (all_entries (drop mi om))))"
  using assms
proof (induction "length om - mi" arbitrary: mi nm al)
  case 0
  then show ?case by (subst (asm) hash_map_rehash_map.simps) (auto simp: all_entries_def)
next
  case (Suc n)
  from Suc have lt: "mi < length om" by simp
  have n: "n = length om - (mi + 1)" using Suc(2) by simp
  show ?case
  proof (cases "om ! mi")
    case None
    with Suc.prems(1) lt
    have rec: "hash_map_rehash_map om (length om) (mi + 1) nc nm al = (ret, nm', al')"
      by (subst (asm) hash_map_rehash_map.simps) (simp add: Let_def)
    from Suc(1) [OF n rec] lt Suc.prems None show ?thesis
      by (simp add: all_entries_drop [OF lt] bucket_entries_def)
  next
    case (Some impl)
    obtain r1 nm1 al1 where
      rb: "hash_map_rehash_bucket (Some impl) (length (al_list impl)) 0 nc nm al = (r1, nm1, al1)"
      by (cases "hash_map_rehash_bucket (Some impl) (length (al_list impl)) 0 nc nm al")
    from hash_map_rehash_bucket_entries [OF rb _ Suc.prems(3,4)]
    have b: "length nm1 = nc"
      "r1 = RCUTILS_RET_OK \<Longrightarrow> \<forall>j < nc. bucket_entries (nm1 ! j) =
               bucket_entries (nm ! j) @
               filter (\<lambda>e. unat (hashed_key e) mod nc = j) (al_list impl)"
      by simp_all
    show ?thesis
    proof (cases "r1 = RCUTILS_RET_OK")
      case True
      with Suc.prems(1) lt Some rb
      have rec: "hash_map_rehash_map om (length om) (mi + 1) nc nm1 al1 = (ret, nm', al')"
        by (subst (asm) hash_map_rehash_map.simps)
           (simp add: Let_def rcutils_array_list_get_size_def)
      from Suc(1) [OF n rec] lt b(1) Suc.prems
      have ih: "length nm' = nc \<and>
         (ret = RCUTILS_RET_OK \<longrightarrow>
            (\<forall>j < nc. bucket_entries (nm' ! j) =
               bucket_entries (nm1 ! j) @
               filter (\<lambda>e. unat (hashed_key e) mod nc = j) (all_entries (drop (mi + 1) om))))"
        by simp
      with b(2) [OF True] Some show ?thesis
        by (simp add: all_entries_drop [OF lt] bucket_entries_def)
    next
      case False
      with Suc.prems(1) lt Some rb have "ret = r1" "nm' = nm1"
        by (subst (asm) hash_map_rehash_map.simps,
            simp add: Let_def rcutils_array_list_get_size_def)+
      with False b(1) show ?thesis by simp
    qed
  qed
qed

subsection \<open>Hash map: \<open>hash_map_check_and_grow_map\<close>\<close>

lemma hash_map_deallocate_map_ok: "hash_map_deallocate_map buckets = RCUTILS_RET_OK"
  by (induction buckets) (auto simp: rcutils_array_list_fini_def split: option.splits)

lemma length_partition_by_index:
  assumes "\<forall>e \<in> set es. f e < m"
  shows "length (concat (map (\<lambda>j. filter (\<lambda>e. f e = j) es) [0..<m])) = length es"
  using assms
proof (induction es)
  case Nil
  then show ?case by (simp add: length_concat comp_def)
next
  case (Cons e es)
  then have fe: "f e < m" and ih: "length (concat (map (\<lambda>j. filter (\<lambda>e. f e = j) es) [0..<m])) = length es"
    by auto
  have one: "sum_list (map (\<lambda>j. if f e = j then 1 else 0) [0..<m]) = (1::nat)"
    using fe by (simp add: interv_sum_list_conv_sum_set_nat)
  have "length (concat (map (\<lambda>j. filter (\<lambda>x. f x = j) (e # es)) [0..<m]))
          = sum_list (map (\<lambda>j. (if f e = j then 1 else 0) + length (filter (\<lambda>x. f x = j) es)) [0..<m])"
  proof -
    have "\<And>j. length (filter (\<lambda>x. f x = j) (e # es))
            = (if f e = j then 1 else 0) + length (filter (\<lambda>x. f x = j) es)"
      by simp
    then show ?thesis by (simp only: length_concat map_map comp_def)
  qed
  also have "\<dots> = sum_list (map (\<lambda>j. if f e = j then 1 else 0) [0..<m])
                  + sum_list (map (\<lambda>j. length (filter (\<lambda>x. f x = j) es)) [0..<m])"
    by (simp add: sum_list_addf)
  also have "\<dots> = 1 + length es"
    using ih one by (simp add: length_concat comp_def)
  finally show ?case by simp
qed

lemma all_entries_by_index:
  assumes "\<forall>j < length nm. bucket_entries (nm ! j) = g j"
  shows "all_entries nm = concat (map g [0..<length nm])"
proof -
  have "map bucket_entries nm = map g [0..<length nm]"
    using assms by (intro nth_equalityI) auto
  then show ?thesis by (simp add: all_entries_def)
qed

lemma hash_map_check_and_grow_map_cases:
  assumes inv: "hash_map_inv hm"
      and cg: "hash_map_check_and_grow_map hm al = (ret, hm', al')"
  shows "(hm_size hm < load_threshold (hm_capacity hm) \<and> ret = RCUTILS_RET_OK \<and> hm' = hm) \<or>
         (load_threshold (hm_capacity hm) \<le> hm_size hm \<and> ret \<noteq> RCUTILS_RET_OK \<and> hm' = hm) \<or>
         (load_threshold (hm_capacity hm) \<le> hm_size hm \<and> ret = RCUTILS_RET_OK \<and>
          (\<exists>nm. hm' = hm\<lparr>hm_map := nm, hm_capacity := 2 * hm_capacity hm\<rparr> \<and>
                length nm = 2 * hm_capacity hm \<and>
                (\<forall>j < 2 * hm_capacity hm. bucket_entries (nm ! j) =
                   filter (\<lambda>e. unat (hashed_key e) mod (2 * hm_capacity hm) = j)
                     (all_entries (hm_map hm)))))"
proof (cases "hm_size hm < load_threshold (hm_capacity hm)")
  case True
  with cg show ?thesis by (auto simp: hash_map_check_and_grow_map_def)
next
  case False
  then have ge: "load_threshold (hm_capacity hm) \<le> hm_size hm" by simp
  let ?nc = "2 * hm_capacity hm"
  from inv have len: "length (hm_map hm) = hm_capacity hm" and pos: "0 < ?nc"
    using hash_map_inv_index(3) [OF inv] by (auto simp: hash_map_inv_def)
  show ?thesis
  proof (cases "fst (alloc_request al)")
    case False
    with cg ge show ?thesis
      by (auto simp: hash_map_check_and_grow_map_def hash_map_allocate_new_map_def Let_def
          split: prod.splits)
  next
    case True
    then obtain al1 where ar: "alloc_request al = (True, al1)" by (cases "alloc_request al") auto
    let ?nm0 = "replicate ?nc (None :: ('a, 'b) bucket_t)"
    obtain r1 nm1 al2 where
      rh: "hash_map_rehash_map (hm_map hm) (length (hm_map hm)) 0 ?nc ?nm0 al1 = (r1, nm1, al2)"
      by (cases "hash_map_rehash_map (hm_map hm) (length (hm_map hm)) 0 ?nc ?nm0 al1")
    from hash_map_rehash_map_entries [OF rh] pos
    have e: "length nm1 = ?nc"
      "r1 = RCUTILS_RET_OK \<Longrightarrow> \<forall>j < ?nc. bucket_entries (nm1 ! j) =
          bucket_entries (?nm0 ! j) @
          filter (\<lambda>e. unat (hashed_key e) mod ?nc = j) (all_entries (hm_map hm))"
      by simp_all
    show ?thesis
    proof (cases "r1 = RCUTILS_RET_OK")
      case False
      with cg ge ar rh len show ?thesis
        by (auto simp: hash_map_check_and_grow_map_def hash_map_allocate_new_map_def Let_def
            rcutils_get_zero_initialized_array_list_def)
    next
      case True
      with cg ge ar rh len
      have "ret = RCUTILS_RET_OK" "hm' = hm\<lparr>hm_map := nm1, hm_capacity := ?nc\<rparr>"
        by (auto simp: hash_map_check_and_grow_map_def hash_map_allocate_new_map_def Let_def
            rcutils_get_zero_initialized_array_list_def hash_map_deallocate_map_ok)
      moreover have "\<forall>j < ?nc. bucket_entries (nm1 ! j) =
          filter (\<lambda>e. unat (hashed_key e) mod ?nc = j) (all_entries (hm_map hm))"
        using e(2) [OF True] by (simp add: bucket_entries_def)
      ultimately show ?thesis using ge e(1) by blast
    qed
  qed
qed

subsection \<open>Hash map: growing keeps what the map holds\<close>

lemma key_matches_fields:
  "hm_key_hashing_func hm' = hm_key_hashing_func hm \<Longrightarrow>
   hm_key_cmp_func hm' = hm_key_cmp_func hm \<Longrightarrow> key_matches hm' = key_matches hm"
  by (simp add: key_matches_def fun_eq_iff)

lemma hash_map_lookup_all_entries:
  assumes "hash_map_inv hm"
  shows "hash_map_lookup hm k = List.find (key_matches hm k) (all_entries (hm_map hm))"
proof -
  let ?i = "unat (hm_key_hashing_func hm k) mod hm_capacity hm"
  from assms have len: "length (hm_map hm) = hm_capacity hm"
    and pl: "buckets_placed (hm_map hm)" by (auto simp: hash_map_inv_def)
  have i: "?i < length (map bucket_entries (hm_map hm))"
    using hash_map_inv_index(2) [OF assms] by simp
  have "List.find (key_matches hm k) (concat (map bucket_entries (hm_map hm)))
          = List.find (key_matches hm k) (map bucket_entries (hm_map hm) ! ?i)"
  proof (rule find_concat_single [OF i])
    fix j x
    assume j: "j < length (map bucket_entries (hm_map hm))" and ne: "j \<noteq> ?i"
      and x: "x \<in> set (map bucket_entries (hm_map hm) ! j)"
    then have "unat (hashed_key x) mod hm_capacity hm = j"
      using pl len by (auto simp: buckets_placed_def)
    with ne show "\<not> key_matches hm k x" by (auto simp: key_matches_def)
  qed
  with i show ?thesis by (simp add: hash_map_lookup_def all_entries_def)
qed

lemma hash_map_grown:
  assumes inv: "hash_map_inv hm"
      and len: "length nm = 2 * hm_capacity hm"
      and nm: "\<forall>j < 2 * hm_capacity hm. bucket_entries (nm ! j) =
                 filter (\<lambda>e. unat (hashed_key e) mod (2 * hm_capacity hm) = j)
                   (all_entries (hm_map hm))"
  shows "hash_map_inv (hm\<lparr>hm_map := nm, hm_capacity := 2 * hm_capacity hm\<rparr>)"
    and "hash_map_lookup (hm\<lparr>hm_map := nm, hm_capacity := 2 * hm_capacity hm\<rparr>) k
           = hash_map_lookup hm k"
proof -
  let ?nc = "2 * hm_capacity hm"
  let ?hm' = "hm\<lparr>hm_map := nm, hm_capacity := ?nc\<rparr>"
  let ?es = "all_entries (hm_map hm)"
  let ?f = "\<lambda>e. unat (hashed_key e) mod ?nc"
  from inv obtain n where n: "hm_capacity hm = 2 ^ n" by (auto simp: hash_map_inv_def)
  have pos: "0 < ?nc" by (simp add: n)
  have p2: "\<exists>n'. ?nc = 2 ^ n'" by (rule exI [of _ "Suc n"]) (simp add: n)
  have placed: "buckets_placed nm"
    using nm len by (auto simp: buckets_placed_def)
  have "all_entries nm = concat (map (\<lambda>j. filter (\<lambda>e. ?f e = j) ?es) [0..<length nm])"
    by (rule all_entries_by_index) (use nm len in auto)
  then have "length (all_entries nm) = length ?es"
    using length_partition_by_index [of ?es ?f ?nc] pos len by simp
  with inv len p2 placed show inv': "hash_map_inv ?hm'"
    by (simp add: hash_map_inv_def)
  let ?P = "key_matches hm k"
  let ?i = "unat (hm_key_hashing_func hm k) mod ?nc"
  have i: "?i < ?nc" using pos by simp
  have "hash_map_lookup ?hm' k = List.find ?P (bucket_entries (nm ! ?i))"
    by (simp add: hash_map_lookup_def key_matches_fields [of ?hm' hm])
  also have "\<dots> = List.find ?P (filter (\<lambda>e. ?f e = ?i) ?es)"
    using nm i by simp
  also have "\<dots> = List.find ?P ?es"
    by (rule find_filter_implied) (simp add: key_matches_def)
  also have "\<dots> = hash_map_lookup hm k"
    using hash_map_lookup_all_entries [OF inv] by simp
  finally show "hash_map_lookup ?hm' k = hash_map_lookup hm k" .
qed

lemma hash_map_check_and_grow_map_preserves:
  assumes inv: "hash_map_inv hm"
      and cg: "hash_map_check_and_grow_map hm al = (ret, hm', al')"
  shows "hash_map_inv hm'"
    and "hash_map_lookup hm' k = hash_map_lookup hm k"
    and "hm_size hm' = hm_size hm"
    and "hm_key_hashing_func hm' = hm_key_hashing_func hm"
    and "hm_key_cmp_func hm' = hm_key_cmp_func hm"
    and "all_entries (hm_map hm') = all_entries (hm_map hm) \<or>
         hm_capacity hm' = 2 * hm_capacity hm"
  using hash_map_check_and_grow_map_cases [OF inv cg] inv hash_map_grown [OF inv]
  by auto

subsection \<open>Hash map: the first step of \<open>rcutils_hash_map_set\<close>\<close>

lemma length_all_entries_update:
  assumes "i < length bs"
  shows "length (all_entries (bs[i := b])) + length (bucket_entries (bs ! i))
           = length (all_entries bs) + length (bucket_entries b)"
proof -
  have bs: "bs = take i bs @ (bs ! i) # drop (Suc i) bs"
    using assms by (simp add: id_take_nth_drop)
  have up: "bs[i := b] = take i bs @ b # drop (Suc i) bs"
    using assms by (simp add: upd_conv_take_nth_drop)
  have "length (all_entries bs)
          = length (all_entries (take i bs)) + length (bucket_entries (bs ! i))
            + length (all_entries (drop (Suc i) bs))"
    by (subst bs) (simp add: all_entries_def)
  moreover have "length (all_entries (bs[i := b]))
          = length (all_entries (take i bs)) + length (bucket_entries b)
            + length (all_entries (drop (Suc i) bs))"
    by (subst up) (simp add: all_entries_def)
  ultimately show ?thesis by simp
qed

lemma buckets_placed_update:
  assumes "buckets_placed bs" and "i < length bs"
      and "\<forall>e \<in> set (bucket_entries b). unat (hashed_key e) mod length bs = i"
  shows "buckets_placed (bs[i := b])"
  using assms by (auto simp: buckets_placed_def nth_list_update)

lemma find_from_same_tests:
  "length xs' = length xs \<Longrightarrow> (\<forall>i < length xs. P (xs' ! i) = P (xs ! i)) \<Longrightarrow>
   find_from P xs' n = map_option (\<lambda>(i, x). (i, xs' ! (i - n))) (find_from P xs n)"
proof (induction xs' xs arbitrary: n rule: list_induct2)
  case Nil
  then show ?case by simp
next
  case (Cons x' xs' x xs)
  have hd: "P x' = P x" using Cons.prems by (auto dest: spec [of _ 0])
  have tl: "\<forall>i < length xs. P (xs' ! i) = P (xs ! i)"
    using Cons.prems by (auto dest: spec [of _ "Suc i" for i])
  show ?case
  proof (cases "P x")
    case True
    with hd show ?thesis by simp
  next
    case False
    have "find_from P xs' (n + 1) = map_option (\<lambda>(i, x). (i, xs' ! (i - (n + 1)))) (find_from P xs (n + 1))"
      by (rule Cons.IH [OF tl])
    moreover have "(i, (x' # xs') ! (i - n)) = (i, xs' ! (i - (n + 1)))"
      if "find_from P xs (n + 1) = Some (i, y)" for i y
    proof -
      from find_from_Some [OF that] obtain m where "i = n + 1 + m" by blast
      then show ?thesis by simp
    qed
    ultimately show ?thesis using False hd
      by (cases "find_from P xs (n + 1)") auto
  qed
qed

text \<open>The entry found is overwritten.\<close>

lemma rcutils_hash_map_set_entry_found:
  assumes inv: "hash_map_inv hm"
      and f: "find_from (key_matches hm k)
                (bucket_entries (hm_map hm ! (unat (hm_key_hashing_func hm k) mod hm_capacity hm))) 0
              = Some (j, e)"
  shows "\<exists>impl. hm_map hm ! (unat (hm_key_hashing_func hm k) mod hm_capacity hm) = Some impl \<and>
           rcutils_hash_map_set_entry hm k v al =
             (RCUTILS_RET_OK,
              hm\<lparr>hm_map := (hm_map hm)
                     [unat (hm_key_hashing_func hm k) mod hm_capacity hm :=
                        Some (impl\<lparr>al_list := (al_list impl)[j := e\<lparr>entry_value := v\<rparr>]\<rparr>)]\<rparr>, al) \<and>
           j < length (al_list impl) \<and> al_list impl ! j = e \<and> key_matches hm k e"
proof -
  let ?mi = "unat (hm_key_hashing_func hm k) mod hm_capacity hm"
  from f have "bucket_entries (hm_map hm ! ?mi) \<noteq> []" by auto
  then obtain impl where impl: "hm_map hm ! ?mi = Some impl"
    by (cases "hm_map hm ! ?mi") (auto simp: bucket_entries_def)
  from find_from_Some [OF f] impl
  have j: "j < length (al_list impl)" "al_list impl ! j = e" "key_matches hm k e"
    by (auto simp: bucket_entries_def)
  have "rcutils_hash_map_set_entry hm k v al =
             (RCUTILS_RET_OK,
              hm\<lparr>hm_map := (hm_map hm)
                     [?mi := Some (impl\<lparr>al_list := (al_list impl)[j := e\<lparr>entry_value := v\<rparr>]\<rparr>)]\<rparr>, al)"
    using f impl by (simp add: rcutils_hash_map_set_entry_def hash_map_find_eq [OF inv] Let_def)
  with impl j show ?thesis by blast
qed

lemma rcutils_hash_map_set_entry_not_found:
  assumes inv: "hash_map_inv hm"
      and f: "find_from (key_matches hm k)
                (bucket_entries (hm_map hm ! (unat (hm_key_hashing_func hm k) mod hm_capacity hm))) 0
              = None"
      and s: "rcutils_hash_map_set_entry hm k v al = (ret, hm1, al1)"
  shows "(ret = RCUTILS_RET_BAD_ALLOC \<and> hm1 = hm) \<or>
         (ret = RCUTILS_RET_OK \<and>
          (\<exists>buckets. hm1 = hm\<lparr>hm_map := buckets, hm_size := hm_size hm + 1\<rparr> \<and>
             length buckets = length (hm_map hm) \<and>
             bucket_entries (buckets ! (unat (hm_key_hashing_func hm k) mod hm_capacity hm))
               = bucket_entries (hm_map hm ! (unat (hm_key_hashing_func hm k) mod hm_capacity hm))
                 @ [\<lparr>hashed_key = hm_key_hashing_func hm k, entry_key = k, entry_value = v\<rparr>] \<and>
             (\<forall>j. j \<noteq> unat (hm_key_hashing_func hm k) mod hm_capacity hm \<longrightarrow>
                  buckets ! j = hm_map hm ! j)))"
proof -
  let ?kh = "hm_key_hashing_func hm k"
  let ?mi = "unat ?kh mod hm_capacity hm"
  let ?e = "\<lparr>hashed_key = ?kh, entry_key = k, entry_value = v\<rparr>"
  note idx2 = hash_map_inv_index(2) [OF inv, of ?kh]
  note idx4 = hash_map_inv_index(4) [OF inv, of ?kh]
  show ?thesis
  proof (cases "alloc_request al" rule: prod.exhaust)
    case (Pair got_entry a1)
    note ge = this
    show ?thesis
    proof (cases got_entry)
      case False
      with s f ge show ?thesis
        by (simp add: rcutils_hash_map_set_entry_def hash_map_find_eq [OF inv] Let_def)
    next
      case True
      obtain got_key a2 where gk: "alloc_request a1 = (got_key, a2)" by (cases "alloc_request a1")
      obtain got_value a3 where gv: "alloc_request a2 = (got_value, a3)" by (cases "alloc_request a2")
      show ?thesis
      proof (cases "got_key \<and> got_value")
        case False
        with s f ge True gk gv show ?thesis
          by (auto simp: rcutils_hash_map_set_entry_def hash_map_find_eq [OF inv] Let_def)
      next
        case kv: True
        obtain r bs a4 where ins: "hash_map_insert_entry (hm_map hm) ?mi ?e a3 = (r, bs, a4)"
          by (cases "hash_map_insert_entry (hm_map hm) ?mi ?e a3")
        from s f ge True gk gv kv ins
        have res: "(ret, hm1, al1) =
                     (if r \<noteq> RCUTILS_RET_OK then (r, hm\<lparr>hm_map := bs\<rparr>, a4)
                      else (RCUTILS_RET_OK, hm\<lparr>hm_map := bs, hm_size := hm_size hm + 1\<rparr>, a4))"
          by (simp add: rcutils_hash_map_set_entry_def hash_map_find_eq [OF inv] Let_def idx4)
        from hash_map_insert_entry_cases [OF ins idx2] show ?thesis
        proof
          assume "r = RCUTILS_RET_OK \<and> length bs = length (hm_map hm) \<and>
            bucket_entries (bs ! ?mi) = bucket_entries (hm_map hm ! ?mi) @ [?e] \<and>
            (\<forall>j. j \<noteq> ?mi \<longrightarrow> bs ! j = hm_map hm ! j)"
          with res show ?thesis by auto
        next
          assume "r = RCUTILS_RET_BAD_ALLOC \<and> bs = hm_map hm"
          with res show ?thesis by auto
        qed
      qed
    qed
  qed
qed

lemma hash_map_inv_fields:
  "hash_map_inv hm \<Longrightarrow> hm_map hm' = hm_map hm \<Longrightarrow> hm_capacity hm' = hm_capacity hm \<Longrightarrow>
   hm_size hm' = hm_size hm \<Longrightarrow> hash_map_inv hm'"
  by (simp add: hash_map_inv_def)

lemma rcutils_hash_map_set_entry_fail:
  assumes inv: "hash_map_inv hm"
      and s: "rcutils_hash_map_set_entry hm k v al = (ret, hm1, al1)"
      and ne: "ret \<noteq> RCUTILS_RET_OK"
  shows "ret = RCUTILS_RET_BAD_ALLOC" and "hm1 = hm" and "hash_map_lookup hm k = None"
proof -
  let ?f = "find_from (key_matches hm k)
                (bucket_entries (hm_map hm ! (unat (hm_key_hashing_func hm k) mod hm_capacity hm))) 0"
  have none: "?f = None"
  proof (cases ?f)
    case (Some je)
    obtain j e where "je = (j, e)" by (cases je)
    with Some rcutils_hash_map_set_entry_found [OF inv, of k j e v al] s ne show ?thesis by auto
  qed simp
  from rcutils_hash_map_set_entry_not_found [OF inv none s] ne
  show "ret = RCUTILS_RET_BAD_ALLOC" and "hm1 = hm" by auto
  from none show "hash_map_lookup hm k = None" by (simp add: hash_map_lookup_find_from)
qed

lemma rcutils_hash_map_set_entry_ok:
  assumes inv: "hash_map_inv hm"
      and s: "rcutils_hash_map_set_entry hm k v al = (RCUTILS_RET_OK, hm1, al1)"
  shows "hash_map_inv hm1"
    and "hm_key_cmp_func hm k k = 0 \<Longrightarrow> \<exists>e. hash_map_lookup hm1 k = Some e \<and> entry_value e = v"
    and "hm_key_hashing_func hm1 = hm_key_hashing_func hm"
    and "hm_key_cmp_func hm1 = hm_key_cmp_func hm"
    and "hm_capacity hm1 = hm_capacity hm"
    and "hm_size hm1 = hm_size hm \<or> hm_size hm1 = hm_size hm + 1"
proof -
  let ?kh = "hm_key_hashing_func hm k"
  let ?mi = "unat ?kh mod hm_capacity hm"
  let ?es = "bucket_entries (hm_map hm ! ?mi)"
  let ?P = "key_matches hm k"
  note idx2 = hash_map_inv_index(2) [OF inv, of ?kh]
  note idx4 = hash_map_inv_index(4) [OF inv, of ?kh]
  from inv have len: "length (hm_map hm) = hm_capacity hm"
    and pl: "buckets_placed (hm_map hm)"
    and sz: "hm_size hm = length (all_entries (hm_map hm))"
    and p2: "\<exists>n. hm_capacity hm = 2 ^ n" by (auto simp: hash_map_inv_def)
  have "hash_map_inv hm1 \<and>
        (hm_key_cmp_func hm k k = 0 \<longrightarrow> (\<exists>e. hash_map_lookup hm1 k = Some e \<and> entry_value e = v)) \<and>
        hm_key_hashing_func hm1 = hm_key_hashing_func hm \<and>
        hm_key_cmp_func hm1 = hm_key_cmp_func hm \<and> hm_capacity hm1 = hm_capacity hm \<and>
        (hm_size hm1 = hm_size hm \<or> hm_size hm1 = hm_size hm + 1)"
  proof (cases "find_from ?P ?es 0")
    case None
    from rcutils_hash_map_set_entry_not_found [OF inv None s] obtain bs where
      hm1: "hm1 = hm\<lparr>hm_map := bs, hm_size := hm_size hm + 1\<rparr>"
      and lb: "length bs = length (hm_map hm)"
      and be: "bucket_entries (bs ! ?mi) = ?es @ [\<lparr>hashed_key = ?kh, entry_key = k, entry_value = v\<rparr>]"
      and ot: "\<forall>j. j \<noteq> ?mi \<longrightarrow> bs ! j = hm_map hm ! j" by auto
    let ?e = "\<lparr>hashed_key = ?kh, entry_key = k, entry_value = v\<rparr>"
    have bsu: "bs = (hm_map hm)[?mi := bs ! ?mi]"
    proof (rule nth_equalityI)
      show "length bs = length ((hm_map hm)[?mi := bs ! ?mi])" using lb by simp
    next
      fix i assume "i < length bs"
      then show "bs ! i = (hm_map hm)[?mi := bs ! ?mi] ! i"
        using lb ot by (cases "i = ?mi") (simp_all add: nth_list_update)
    qed
    have placed: "buckets_placed bs"
    proof (subst bsu, rule buckets_placed_update [OF pl idx2])
      show "\<forall>e\<in>set (bucket_entries (bs ! ?mi)). unat (hashed_key e) mod length (hm_map hm) = ?mi"
        using pl idx2 len by (auto simp: be buckets_placed_def)
    qed
    have "length (all_entries bs) + length ?es = length (all_entries (hm_map hm)) + length (?es @ [?e])"
      using length_all_entries_update [OF idx2, of "bs ! ?mi"] bsu be by simp
    then have size: "length (all_entries bs) = hm_size hm + 1" using sz by simp
    have inv1: "hash_map_inv hm1"
      using len lb p2 placed size by (simp add: hash_map_inv_def hm1)
    have "hash_map_lookup hm1 k = Some ?e" if refl: "hm_key_cmp_func hm k k = 0"
    proof -
      have m: "?P ?e" using refl by (simp add: key_matches_def)
      have "List.find ?P ?es = None" using None find_from_find [of ?P ?es 0] by simp
      then have "List.find ?P (?es @ [?e]) = Some ?e" using m by (simp add: find_append)
      moreover have "key_matches hm1 = key_matches hm"
        by (rule key_matches_fields) (simp_all add: hm1)
      ultimately show ?thesis
        by (simp add: hash_map_lookup_def be) (simp add: hm1 be)
    qed
    with inv1 show ?thesis by (simp add: hm1)
  next
    case (Some je)
    obtain j e where je: "je = (j, e)" by (cases je)
    from rcutils_hash_map_set_entry_found [OF inv Some [unfolded je], of v al] s
    obtain impl where impl: "hm_map hm ! ?mi = Some impl"
      and hm1: "hm1 = hm\<lparr>hm_map := (hm_map hm)
                     [?mi := Some (impl\<lparr>al_list := (al_list impl)[j := e\<lparr>entry_value := v\<rparr>]\<rparr>)]\<rparr>"
      and j: "j < length (al_list impl)" "al_list impl ! j = e" "?P e"
      by auto
    let ?es' = "(al_list impl)[j := e\<lparr>entry_value := v\<rparr>]"
    let ?b' = "Some (impl\<lparr>al_list := ?es'\<rparr>)"
    have es: "?es = al_list impl" using impl by (simp add: bucket_entries_def)
    have be': "bucket_entries ?b' = ?es'" by (simp add: bucket_entries_def)
    have hk: "\<forall>i < length ?es'. hashed_key (?es' ! i) = hashed_key (al_list impl ! i)"
      using j by (auto simp: nth_list_update)
    have placed: "buckets_placed ((hm_map hm)[?mi := ?b'])"
    proof (rule buckets_placed_update [OF pl idx2])
      show "\<forall>x\<in>set (bucket_entries ?b'). unat (hashed_key x) mod length (hm_map hm) = ?mi"
      proof
        fix x assume "x \<in> set (bucket_entries ?b')"
        then obtain i where i: "i < length ?es'" "x = ?es' ! i"
          by (auto simp: be' in_set_conv_nth)
        then have "hashed_key x = hashed_key (al_list impl ! i)" using hk by simp
        moreover have "al_list impl ! i \<in> set ?es" using i es by simp
        ultimately show "unat (hashed_key x) mod length (hm_map hm) = ?mi"
          using pl idx2 by (auto simp: buckets_placed_def)
      qed
    qed
    have "length (all_entries ((hm_map hm)[?mi := ?b'])) + length ?es
            = length (all_entries (hm_map hm)) + length (bucket_entries ?b')"
      by (rule length_all_entries_update [OF idx2])
    then have size: "length (all_entries ((hm_map hm)[?mi := ?b'])) = hm_size hm"
      using sz es by (simp add: be')
    have inv1: "hash_map_inv hm1"
      using len p2 placed size by (simp add: hash_map_inv_def hm1)
    have same: "\<forall>i < length (al_list impl). ?P (?es' ! i) = ?P (al_list impl ! i)"
      using j by (auto simp: nth_list_update key_matches_def)
    have "find_from ?P ?es' 0 = map_option (\<lambda>(i, x). (i, ?es' ! (i - 0))) (find_from ?P (al_list impl) 0)"
      by (rule find_from_same_tests) (use same in auto)
    also have "\<dots> = Some (j, e\<lparr>entry_value := v\<rparr>)"
      using Some je es j by simp
    finally have "List.find ?P ?es' = Some (e\<lparr>entry_value := v\<rparr>)"
      using find_from_find [of ?P ?es' 0] by simp
    moreover have "key_matches hm1 = key_matches hm"
      by (rule key_matches_fields) (simp_all add: hm1)
    ultimately have "hash_map_lookup hm1 k = Some (e\<lparr>entry_value := v\<rparr>)"
      using idx2 by (simp add: hash_map_lookup_def) (simp add: hm1 be')
    with inv1 show ?thesis by (simp add: hm1)
  qed
  then show "hash_map_inv hm1"
    and "hm_key_cmp_func hm k k = 0 \<Longrightarrow> \<exists>e. hash_map_lookup hm1 k = Some e \<and> entry_value e = v"
    and "hm_key_hashing_func hm1 = hm_key_hashing_func hm"
    and "hm_key_cmp_func hm1 = hm_key_cmp_func hm"
    and "hm_capacity hm1 = hm_capacity hm"
    and "hm_size hm1 = hm_size hm \<or> hm_size hm1 = hm_size hm + 1"
    by blast+
qed

subsection \<open>Hash map: \<open>rcutils_hash_map_set\<close>\<close>

lemma rcutils_hash_map_set_cases:
  assumes inv: "hash_map_inv hm"
      and s: "rcutils_hash_map_set (Some hm) k v al = (ret, hm', al')"
  obtains (fail) "ret = RCUTILS_RET_BAD_ALLOC" "hm' = Some hm" "hash_map_lookup hm k = None"
             "rcutils_hash_map_set_entry hm k v al = (ret, hm, al')"
    | (ok) hm1 al1 r hm2 where "ret = RCUTILS_RET_OK" "hm' = Some hm2"
             "rcutils_hash_map_set_entry hm k v al = (RCUTILS_RET_OK, hm1, al1)"
             "hash_map_check_and_grow_map hm1 al1 = (r, hm2, al')"
proof -
  obtain r1 hm1 al1 where e: "rcutils_hash_map_set_entry hm k v al = (r1, hm1, al1)"
    by (cases "rcutils_hash_map_set_entry hm k v al")
  show thesis
  proof (cases "r1 = RCUTILS_RET_OK")
    case True
    obtain r hm2 al2 where g: "hash_map_check_and_grow_map hm1 al1 = (r, hm2, al2)"
      by (cases "hash_map_check_and_grow_map hm1 al1")
    from s e True g have "ret = RCUTILS_RET_OK" "hm' = Some hm2" "al' = al2"
      by (simp_all add: rcutils_hash_map_set_def)
    with e True g show thesis by (intro ok) simp_all
  next
    case False
    from s e False have r: "ret = r1" "hm' = Some hm1" "al' = al1"
      by (simp_all add: rcutils_hash_map_set_def)
    from rcutils_hash_map_set_entry_fail [OF inv e False] r e show thesis
      by (intro fail) simp_all
  qed
qed

lemma load_threshold_grown:
  assumes "load_threshold c \<le> s" and "s \<le> sz + 1" and "4 * sz \<le> 3 * c" and "0 < c"
  shows "4 * s \<le> 3 * (2 * c)"
  using assms by (simp add: load_threshold_def)

lemma load_threshold_below: "s < load_threshold c \<Longrightarrow> 4 * s \<le> 3 * c"
  by (simp add: load_threshold_def)

subsection \<open>Hash map: refused requests in \<open>rcutils_hash_map_set\<close>\<close>


lemma refused_step:
  "False \<in> set (take (Suc n) al) \<longleftrightarrow>
     \<not> fst (alloc_request al) \<or> False \<in> set (take n (snd (alloc_request al)))"
  by (cases al) (auto simp: alloc_request_def)

lemma hash_map_insert_entry_refused:
  "fst (hash_map_insert_entry buckets i e al) =
     (if False \<in> set (take (hash_map_insert_requests buckets i) al)
      then RCUTILS_RET_BAD_ALLOC else RCUTILS_RET_OK)"
proof (cases "buckets ! i")
  case None
  obtain g1 al1 where a1: "alloc_request al = (g1, al1)" by (cases "alloc_request al")
  obtain g2 al2 where a2: "alloc_request al1 = (g2, al2)" by (cases "alloc_request al1")
  have "False \<in> set (take (Suc (Suc 0)) al) \<longleftrightarrow> \<not> g1 \<or> \<not> g2"
    by (simp only: refused_step a1 a2 fst_conv snd_conv) simp
  then have r: "False \<in> set (take (hash_map_insert_requests buckets i) al) \<longleftrightarrow> \<not> g1 \<or> \<not> g2"
    using None by (simp add: hash_map_insert_requests_def numeral_2_eq_2)
  show ?thesis
    unfolding r using None a1 a2
    by (simp add: hash_map_insert_entry_def rcutils_array_list_init_def rcutils_array_list_add_def
        BUCKET_INITIAL_CAP_def Let_def)
next
  case (Some impl)
  obtain g1 al1 where a1: "alloc_request al = (g1, al1)" by (cases "alloc_request al")
  have "False \<in> set (take (Suc 0) al) \<longleftrightarrow> \<not> g1"
    by (simp only: refused_step a1 fst_conv snd_conv) simp
  then have r: "False \<in> set (take (hash_map_insert_requests buckets i) al) \<longleftrightarrow>
                 al_capacity impl < length (al_list impl) + 1 \<and> \<not> g1"
    using Some by (simp add: hash_map_insert_requests_def)
  show ?thesis
    unfolding r using Some a1
    by (simp add: hash_map_insert_entry_def rcutils_array_list_add_def
        rcutils_array_list_increase_capacity_def Let_def)
qed

lemma rcutils_hash_map_set_entry_refused:
  assumes inv: "hash_map_inv hm"
      and nf: "find_from (key_matches hm k)
                 (bucket_entries (hm_map hm ! (unat (hm_key_hashing_func hm k) mod hm_capacity hm))) 0
               = None"
  shows "fst (rcutils_hash_map_set_entry hm k v al) =
           (if rcutils_hash_map_set_refused hm k al then RCUTILS_RET_BAD_ALLOC else RCUTILS_RET_OK)"
proof -
  let ?kh = "hm_key_hashing_func hm k"
  let ?mi = "unat ?kh mod hm_capacity hm"
  let ?e = "\<lparr>hashed_key = ?kh, entry_key = k, entry_value = v\<rparr>"
  note idx = hash_map_inv_index(4) [OF inv, of ?kh]
  obtain g1 al1 where a1: "alloc_request al = (g1, al1)" by (cases "alloc_request al")
  obtain g2 al2 where a2: "alloc_request al1 = (g2, al2)" by (cases "alloc_request al1")
  obtain g3 al3 where a3: "alloc_request al2 = (g3, al3)" by (cases "alloc_request al2")
  obtain r bs al4 where ins: "hash_map_insert_entry (hm_map hm) ?mi ?e al3 = (r, bs, al4)"
    by (cases "hash_map_insert_entry (hm_map hm) ?mi ?e al3")
  have "False \<in> set (take (Suc (Suc (Suc (hash_map_insert_requests (hm_map hm) ?mi)))) al) \<longleftrightarrow>
          \<not> g1 \<or> \<not> g2 \<or> \<not> g3 \<or> False \<in> set (take (hash_map_insert_requests (hm_map hm) ?mi) al3)"
    by (simp only: refused_step a1 a2 a3 fst_conv snd_conv)
  then have ref: "rcutils_hash_map_set_refused hm k al \<longleftrightarrow>
          \<not> g1 \<or> \<not> g2 \<or> \<not> g3 \<or> False \<in> set (take (hash_map_insert_requests (hm_map hm) ?mi) al3)"
    by (simp add: rcutils_hash_map_set_refused_def idx Let_def numeral_3_eq_3)
  have r: "r = (if False \<in> set (take (hash_map_insert_requests (hm_map hm) ?mi) al3)
                then RCUTILS_RET_BAD_ALLOC else RCUTILS_RET_OK)"
    using hash_map_insert_entry_refused [of "hm_map hm" ?mi ?e al3] ins by simp
  show ?thesis
    unfolding ref using nf a1 a2 a3 ins r
    by (simp add: rcutils_hash_map_set_entry_def hash_map_find_eq [OF inv] idx Let_def)
qed

lemma rcutils_hash_map_set_refused_result:
  assumes inv: "hash_map_inv hm"
      and ne: "\<not> rcutils_hash_map_key_exists (Some hm) k"
  shows "rcutils_hash_map_set_refused hm k al \<Longrightarrow>
           fst (rcutils_hash_map_set (Some hm) k v al) = RCUTILS_RET_BAD_ALLOC \<and>
           fst (snd (rcutils_hash_map_set (Some hm) k v al)) = Some hm"
    and "\<not> rcutils_hash_map_set_refused hm k al \<Longrightarrow>
           fst (rcutils_hash_map_set (Some hm) k v al) = RCUTILS_RET_OK"
proof -
  have nf: "find_from (key_matches hm k)
                 (bucket_entries (hm_map hm ! (unat (hm_key_hashing_func hm k) mod hm_capacity hm))) 0
               = None"
  proof -
    have "hash_map_lookup hm k = None"
      using ne by (simp add: rcutils_hash_map_key_exists_lookup [OF inv])
    then show ?thesis unfolding hash_map_lookup_find_from by (simp only: map_option_is_None)
  qed
  obtain r1 hm1 al1 where e: "rcutils_hash_map_set_entry hm k v al = (r1, hm1, al1)"
    by (cases "rcutils_hash_map_set_entry hm k v al")
  note r1 = rcutils_hash_map_set_entry_refused [OF inv nf, of v al, unfolded e fst_conv]
  {
    assume ref: "rcutils_hash_map_set_refused hm k al"
    then have b: "r1 = RCUTILS_RET_BAD_ALLOC" using r1 by simp
    then have "hm1 = hm" using rcutils_hash_map_set_entry_fail(2) [OF inv e] by simp
    with b e show "fst (rcutils_hash_map_set (Some hm) k v al) = RCUTILS_RET_BAD_ALLOC \<and>
           fst (snd (rcutils_hash_map_set (Some hm) k v al)) = Some hm"
      by (simp add: rcutils_hash_map_set_def)
  }
  {
    assume "\<not> rcutils_hash_map_set_refused hm k al"
    then have "r1 = RCUTILS_RET_OK" using r1 by simp
    with e show "fst (rcutils_hash_map_set (Some hm) k v al) = RCUTILS_RET_OK"
      by (simp add: rcutils_hash_map_set_def split: prod.splits)
  }
qed

subsection \<open>Hash map: the example runs\<close>

lemma replicate_2_4: "replicate 2 x = [x, x]" "replicate 4 x = [x, x, x, x]"
  by (simp_all add: numeral_eq_Suc)

lemmas hash_map_eval = replicate_2_4
  rcutils_hash_map_init_def rcutils_hash_map_set_def rcutils_hash_map_set_entry_def
  rcutils_hash_map_get_def rcutils_hash_map_key_exists_def rcutils_hash_map_get_size_def
  rcutils_hash_map_get_capacity_def rcutils_hash_map_unset_def
  hash_map_find_def hash_map_find_loop.simps hash_map_check_and_grow_map_def
  hash_map_rehash_map.simps hash_map_rehash_bucket.simps hash_map_insert_entry_def
  hash_map_allocate_new_map_def load_threshold_def BUCKET_INITIAL_CAP_def
  rcutils_array_list_init_def rcutils_array_list_add_def rcutils_array_list_get_def
  rcutils_array_list_get_size_def rcutils_array_list_increase_capacity_def
  rcutils_array_list_remove_def rcutils_array_list_set_def rcutils_array_list_fini_def
  alloc_request_def Let_def rcutils_get_zero_initialized_array_list_def
  rcutils_hash_map_string_hash_func_def rcutils_hash_map_string_cmp_func_def cstr_def

lemma hm_run_init_eval:
  "hm_run_init =
     (RCUTILS_RET_OK,
      Some \<lparr>hm_map = [None], hm_capacity = 1, hm_size = 0, hm_key_size = 8, hm_data_size = 4,
            hm_key_hashing_func = rcutils_hash_map_string_hash_func,
            hm_key_cmp_func = rcutils_hash_map_string_cmp_func\<rparr>,
      [True, True, True, True, True, False, True, True, True, False])"
  by (simp add: hm_run_init_def hash_map_eval)

lemma hm_run_a_eval:
  "hm_run_a =
     (RCUTILS_RET_OK,
      Some \<lparr>hm_map = [Some \<lparr>al_capacity = 2,
                 al_list = [\<lparr>hashed_key = 177670, entry_key = ''a'', entry_value = 10\<rparr>],
                 al_data_size = 8\<rparr>],
            hm_capacity = 1, hm_size = 1, hm_key_size = 8, hm_data_size = 4,
            hm_key_hashing_func = rcutils_hash_map_string_hash_func,
            hm_key_cmp_func = rcutils_hash_map_string_cmp_func\<rparr>,
      [True, True, True, False])"
  unfolding hm_run_a_def hm_run_init_eval
  by (simp add: hash_map_eval)

lemma hm_run_b_eval:
  "hm_run_b =
     (RCUTILS_RET_OK,
      Some \<lparr>hm_map = [Some \<lparr>al_capacity = 2,
                 al_list = [\<lparr>hashed_key = 177670, entry_key = ''a'', entry_value = 10\<rparr>,
                            \<lparr>hashed_key = 177671, entry_key = ''b'', entry_value = 20\<rparr>],
                 al_data_size = 8\<rparr>],
            hm_capacity = 1, hm_size = 2, hm_key_size = 8, hm_data_size = 4,
            hm_key_hashing_func = rcutils_hash_map_string_hash_func,
            hm_key_cmp_func = rcutils_hash_map_string_cmp_func\<rparr>,
      [])"
  unfolding hm_run_b_def hm_run_a_eval
  by (simp add: hash_map_eval)

lemma hm_run_c_eval:
  "hm_run_c =
     (RCUTILS_RET_OK,
      Some \<lparr>hm_map = [Some \<lparr>al_capacity = 2,
                 al_list = [\<lparr>hashed_key = 177670, entry_key = ''a'', entry_value = 10\<rparr>,
                            \<lparr>hashed_key = 177672, entry_key = ''c'', entry_value = 30\<rparr>],
                 al_data_size = 8\<rparr>,
                Some \<lparr>al_capacity = 2,
                 al_list = [\<lparr>hashed_key = 177671, entry_key = ''b'', entry_value = 20\<rparr>],
                 al_data_size = 8\<rparr>],
            hm_capacity = 2, hm_size = 3, hm_key_size = 8, hm_data_size = 4,
            hm_key_hashing_func = rcutils_hash_map_string_hash_func,
            hm_key_cmp_func = rcutils_hash_map_string_cmp_func\<rparr>,
      [])"
  unfolding hm_run_c_def hm_run_b_eval
  by (simp add: hash_map_eval)

lemma hm_run_c_entry_eval:
  "hm_run_c_entry =
     (RCUTILS_RET_OK,
      \<lparr>hm_map = [Some \<lparr>al_capacity = 4,
                 al_list = [\<lparr>hashed_key = 177670, entry_key = ''a'', entry_value = 10\<rparr>,
                            \<lparr>hashed_key = 177671, entry_key = ''b'', entry_value = 20\<rparr>,
                            \<lparr>hashed_key = 177672, entry_key = ''c'', entry_value = 30\<rparr>],
                 al_data_size = 8\<rparr>],
            hm_capacity = 1, hm_size = 3, hm_key_size = 8, hm_data_size = 4,
            hm_key_hashing_func = rcutils_hash_map_string_hash_func,
            hm_key_cmp_func = rcutils_hash_map_string_cmp_func\<rparr>,
      [])"
  unfolding hm_run_c_entry_def hm_run_b_eval
  by (simp add: hash_map_eval)

lemma hm_run_c_grow_eval: "hm_run_c_grow = (RCUTILS_RET_OK, the (fst (snd hm_run_c)), [])"
  unfolding hm_run_c_grow_def hm_run_c_entry_eval hm_run_c_eval
  by (simp add: hash_map_eval)

lemma hm_fresh_eval:
  "hm_fresh =
     \<lparr>hm_map = [None, None], hm_capacity = 2, hm_size = 0, hm_key_size = 8, hm_data_size = 4,
      hm_key_hashing_func = rcutils_hash_map_string_hash_func,
      hm_key_cmp_func = rcutils_hash_map_string_cmp_func\<rparr>"
  by (simp add: hm_fresh_def hash_map_eval)

lemma hm_fresh_inv: "hash_map_inv hm_fresh"
proof -
  have "\<exists>n. (2::nat) = 2 ^ n" by (rule exI [of _ 1]) simp
  then show ?thesis
    by (simp add: hm_fresh_eval hash_map_inv_def buckets_placed_def all_entries_def
        bucket_entries_def less_Suc_eq numeral_2_eq_2)
qed

lemma hm_fresh_set_a:
  "rcutils_hash_map_set (Some hm_fresh) ''a'' 10 [] =
     (RCUTILS_RET_OK,
      Some \<lparr>hm_map = [None, None,
                 Some \<lparr>al_capacity = 2,
                   al_list = [\<lparr>hashed_key = 177670, entry_key = ''a'', entry_value = 10\<rparr>],
                   al_data_size = 8\<rparr>, None],
            hm_capacity = 4, hm_size = 1, hm_key_size = 8, hm_data_size = 4,
            hm_key_hashing_func = rcutils_hash_map_string_hash_func,
            hm_key_cmp_func = rcutils_hash_map_string_cmp_func\<rparr>,
      [])"
  unfolding hm_fresh_eval by (simp add: hash_map_eval)

section \<open>The hash map claims\<close>

text \<open>
  C6. Round trip on the hash map. For every hash map that satisfies the invariant of an
  initialised map, every key \<open>k\<close> that the comparison function of the map finds equal to
  itself, and every value \<open>v\<close>: if \<open>rcutils_hash_map_set\<close> of \<open>k\<close> and \<open>v\<close> returns OK, then
  \<open>rcutils_hash_map_get\<close> of \<open>k\<close> on the resulting map returns OK and the value \<open>v\<close>. The
  allocator may refuse any request, so the growth of the map may fail or succeed.
\<close>

theorem hash_map_set_get_round_trip:
  assumes inv: "hash_map_inv hm"
      and refl: "hm_key_cmp_func hm k k = 0"
      and s: "rcutils_hash_map_set (Some hm) k v al = (RCUTILS_RET_OK, hm', al')"
  shows "rcutils_hash_map_get hm' k = (RCUTILS_RET_OK, Some v)"
  using inv s
proof (cases rule: rcutils_hash_map_set_cases)
  case fail
  then show ?thesis by simp
next
  case (ok hm1 al1 r hm2)
  note e = rcutils_hash_map_set_entry_ok [OF inv ok(3)]
  note g = hash_map_check_and_grow_map_preserves [OF e(1) ok(4)]
  from e(2) [OF refl] g(2) [of k] obtain en where "hash_map_lookup hm2 k = Some en" "entry_value en = v"
    by auto
  then show ?thesis by (simp add: ok(2) rcutils_hash_map_get_lookup [OF g(1)])
qed

theorem hash_map_set_get_round_trip_witness:
  "hash_map_inv hm_fresh \<and>
   hm_key_cmp_func hm_fresh ''a'' ''a'' = 0 \<and>
   fst (rcutils_hash_map_set (Some hm_fresh) ''a'' 10 []) = RCUTILS_RET_OK \<and>
   rcutils_hash_map_get (fst (snd (rcutils_hash_map_set (Some hm_fresh) ''a'' 10 []))) ''a''
     = (RCUTILS_RET_OK, Some 10)"
proof -
  have r: "hm_key_cmp_func hm_fresh ''a'' ''a'' = 0"
    by (simp add: hm_fresh_eval rcutils_hash_map_string_cmp_func_def cstr_def)
  from hash_map_set_get_round_trip [OF hm_fresh_inv r hm_fresh_set_a] hm_fresh_inv r
  show ?thesis by (simp add: hm_fresh_set_a)
qed

text \<open>
  Whenever \<open>rcutils_hash_map_set\<close> returns a code other than OK, the code is
  \<open>RCUTILS_RET_BAD_ALLOC\<close> and the map is the map before the call.
\<close>

lemma rcutils_hash_map_set_error_unchanged:
  assumes inv: "hash_map_inv hm"
      and s: "rcutils_hash_map_set (Some hm) k v al = (ret, hm', al')"
      and ne: "ret \<noteq> RCUTILS_RET_OK"
  shows "ret = RCUTILS_RET_BAD_ALLOC \<and> hm' = Some hm \<and>
         rcutils_hash_map_get_size hm' = rcutils_hash_map_get_size (Some hm) \<and>
         \<not> rcutils_hash_map_key_exists hm' k \<and>
         rcutils_hash_map_get hm' k = (RCUTILS_RET_NOT_FOUND, None)"
  using inv s
proof (cases rule: rcutils_hash_map_set_cases)
  case fail
  then show ?thesis
    by (simp add: rcutils_hash_map_get_lookup [OF inv] rcutils_hash_map_key_exists_lookup [OF inv])
next
  case (ok hm1 al1 r hm2)
  with ne show ?thesis by simp
qed

text \<open>
  C9. A failed insertion leaves the map as it was. For every hash map that satisfies the
  invariant and every key that the map does not hold: if the allocator refuses one of
  the requests that \<open>rcutils_hash_map_set\<close> makes for the new entry, which are the
  requests for the entry, for the copy of the key, for the copy of the value and for the
  bucket, then the call returns \<open>RCUTILS_RET_BAD_ALLOC\<close>, the map is the map before the
  call, its size is unchanged, \<open>rcutils_hash_map_key_exists\<close> of the key is false and
  \<open>rcutils_hash_map_get\<close> of the key returns \<open>RCUTILS_RET_NOT_FOUND\<close>.
\<close>

theorem hash_map_set_failure_unchanged:
  assumes inv: "hash_map_inv hm"
      and ne: "\<not> rcutils_hash_map_key_exists (Some hm) k"
      and refused: "rcutils_hash_map_set_refused hm k al"
  shows "fst (rcutils_hash_map_set (Some hm) k v al) = RCUTILS_RET_BAD_ALLOC \<and>
         fst (snd (rcutils_hash_map_set (Some hm) k v al)) = Some hm \<and>
         rcutils_hash_map_get_size (fst (snd (rcutils_hash_map_set (Some hm) k v al)))
           = rcutils_hash_map_get_size (Some hm) \<and>
         \<not> rcutils_hash_map_key_exists (fst (snd (rcutils_hash_map_set (Some hm) k v al))) k \<and>
         rcutils_hash_map_get (fst (snd (rcutils_hash_map_set (Some hm) k v al))) k
           = (RCUTILS_RET_NOT_FOUND, None)"
proof -
  note r = rcutils_hash_map_set_refused_result(1) [OF inv ne refused, of v]
  have "hash_map_lookup hm k = None"
    using ne by (simp add: rcutils_hash_map_key_exists_lookup [OF inv])
  then have "rcutils_hash_map_get (Some hm) k = (RCUTILS_RET_NOT_FOUND, None)"
    by (simp add: rcutils_hash_map_get_lookup [OF inv])
  with r ne show ?thesis by simp
qed

text \<open>
  The requests refused in the witness are, in turn, those for the entry, for the copy of
  the key, for the copy of the value, and the two of the bucket, which is not initialised.
\<close>

theorem hash_map_set_failure_unchanged_witness:
  "hash_map_inv hm_fresh \<and>
   \<not> rcutils_hash_map_key_exists (Some hm_fresh) ''a'' \<and>
   rcutils_hash_map_set_refused hm_fresh ''a'' [False] \<and>
   rcutils_hash_map_set_refused hm_fresh ''a'' [True, False] \<and>
   rcutils_hash_map_set_refused hm_fresh ''a'' [True, True, False] \<and>
   rcutils_hash_map_set_refused hm_fresh ''a'' [True, True, True, False] \<and>
   rcutils_hash_map_set_refused hm_fresh ''a'' [True, True, True, True, False] \<and>
   fst (rcutils_hash_map_set (Some hm_fresh) ''a'' 10 [False]) = RCUTILS_RET_BAD_ALLOC \<and>
   fst (rcutils_hash_map_set (Some hm_fresh) ''a'' 10 [True, False]) = RCUTILS_RET_BAD_ALLOC \<and>
   fst (rcutils_hash_map_set (Some hm_fresh) ''a'' 10 [True, True, False])
     = RCUTILS_RET_BAD_ALLOC \<and>
   fst (rcutils_hash_map_set (Some hm_fresh) ''a'' 10 [True, True, True, False])
     = RCUTILS_RET_BAD_ALLOC \<and>
   fst (rcutils_hash_map_set (Some hm_fresh) ''a'' 10 [True, True, True, True, False])
     = RCUTILS_RET_BAD_ALLOC \<and>
   fst (snd (rcutils_hash_map_set (Some hm_fresh) ''a'' 10 [True, True, True, True, False]))
     = Some hm_fresh \<and>
   rcutils_hash_map_get_size (Some hm_fresh) = (RCUTILS_RET_OK, 0) \<and>
   rcutils_hash_map_get (Some hm_fresh) ''a'' = (RCUTILS_RET_NOT_FOUND, None)"
proof -
  have ne: "\<not> rcutils_hash_map_key_exists (Some hm_fresh) ''a''"
    by (simp add: hm_fresh_eval rcutils_hash_map_key_exists_def)
  have r: "rcutils_hash_map_set_refused hm_fresh ''a'' [False]"
    "rcutils_hash_map_set_refused hm_fresh ''a'' [True, False]"
    "rcutils_hash_map_set_refused hm_fresh ''a'' [True, True, False]"
    "rcutils_hash_map_set_refused hm_fresh ''a'' [True, True, True, False]"
    "rcutils_hash_map_set_refused hm_fresh ''a'' [True, True, True, True, False]"
    by (simp_all add: hm_fresh_eval rcutils_hash_map_set_refused_def hash_map_insert_requests_def
        rcutils_hash_map_string_hash_func_def cstr_def Let_def)
  have z: "rcutils_hash_map_get_size (Some hm_fresh) = (RCUTILS_RET_OK, 0)"
    by (simp add: hm_fresh_eval rcutils_hash_map_get_size_def)
  have g: "rcutils_hash_map_get (Some hm_fresh) ''a'' = (RCUTILS_RET_NOT_FOUND, None)"
    by (simp add: hm_fresh_eval rcutils_hash_map_get_def)
  from hash_map_set_failure_unchanged [OF hm_fresh_inv ne r(1), of 10]
    hash_map_set_failure_unchanged [OF hm_fresh_inv ne r(2), of 10]
    hash_map_set_failure_unchanged [OF hm_fresh_inv ne r(3), of 10]
    hash_map_set_failure_unchanged [OF hm_fresh_inv ne r(4), of 10]
    hash_map_set_failure_unchanged [OF hm_fresh_inv ne r(5), of 10]
    hm_fresh_inv ne r z g
  show ?thesis by simp
qed

text \<open>
  When the allocator grants every one of these requests, the call returns OK, whatever
  the answer to the request of the growth is.
\<close>

lemma rcutils_hash_map_set_granted:
  assumes "hash_map_inv hm" and "\<not> rcutils_hash_map_key_exists (Some hm) k"
      and "\<not> rcutils_hash_map_set_refused hm k al"
  shows "fst (rcutils_hash_map_set (Some hm) k v al) = RCUTILS_RET_OK"
  using assms by (rule rcutils_hash_map_set_refused_result(2))

text \<open>
  C7. The load factor after \<open>rcutils_hash_map_set\<close>. As the claim is worded, after any
  call either the size is at most three quarters of the capacity or the growth attempted
  by that call failed. The run \<open>hm_run_c\<close> shows otherwise: the growth failed in the two
  calls before, the third call inserts its entry and its growth succeeds, and the map
  then holds 3 entries in 2 buckets. A call doubles the capacity once.
\<close>

theorem hash_map_set_load_factor_counterexample:
  "fst hm_run_a = RCUTILS_RET_OK \<and> fst hm_run_b = RCUTILS_RET_OK \<and>
   fst hm_run_c = RCUTILS_RET_OK \<and>
   fst hm_run_c_entry = RCUTILS_RET_OK \<and>
   fst hm_run_c_grow = RCUTILS_RET_OK \<and>
   fst (snd hm_run_c) = Some (fst (snd hm_run_c_grow)) \<and>
   rcutils_hash_map_get_size (fst (snd hm_run_c)) = (RCUTILS_RET_OK, 3) \<and>
   rcutils_hash_map_get_capacity (fst (snd hm_run_c)) = (RCUTILS_RET_OK, 2) \<and>
   3 * hm_capacity (the (fst (snd hm_run_c))) < 4 * hm_size (the (fst (snd hm_run_c)))"
  unfolding hm_run_c_grow_eval
  by (simp add: hm_run_a_eval hm_run_b_eval hm_run_c_eval hm_run_c_entry_eval
      rcutils_hash_map_get_size_def rcutils_hash_map_get_capacity_def)

text \<open>
  C7 as amended. For every hash map that satisfies the invariant and whose size is at
  most three quarters of its capacity, a call of \<open>rcutils_hash_map_set\<close> whose first step
  succeeds returns OK, and afterwards either the size is at most three quarters of the
  capacity or the growth attempted by that call failed. When the size has reached the
  threshold \<open>load_threshold\<close> and the growth succeeds, the capacity is doubled, the size
  is kept, and bucket \<open>j\<close> of the new array holds the entries of the old array, in their
  order, whose hash is \<open>j\<close> modulo the new capacity.
\<close>

theorem hash_map_set_load_factor:
  assumes inv: "hash_map_inv hm"
      and lf: "4 * hm_size hm \<le> 3 * hm_capacity hm"
      and e: "rcutils_hash_map_set_entry hm k v al = (RCUTILS_RET_OK, hm1, al1)"
      and g: "hash_map_check_and_grow_map hm1 al1 = (ret, hm2, al2)"
  shows "rcutils_hash_map_set (Some hm) k v al = (RCUTILS_RET_OK, Some hm2, al2) \<and>
         (4 * hm_size hm2 \<le> 3 * hm_capacity hm2 \<or> ret \<noteq> RCUTILS_RET_OK) \<and>
         (load_threshold (hm_capacity hm1) \<le> hm_size hm1 \<and> ret = RCUTILS_RET_OK \<longrightarrow>
            hm_capacity hm2 = 2 * hm_capacity hm1 \<and> hm_size hm2 = hm_size hm1 \<and>
            length (hm_map hm2) = 2 * hm_capacity hm1 \<and>
            (\<forall>j < 2 * hm_capacity hm1.
               bucket_entries (hm_map hm2 ! j) =
                 filter (\<lambda>e. unat (hashed_key e) mod (2 * hm_capacity hm1) = j)
                   (all_entries (hm_map hm1))))"
proof -
  note se = rcutils_hash_map_set_entry_ok [OF inv e]
  have inv1: "hash_map_inv hm1" and cap1: "hm_capacity hm1 = hm_capacity hm"
    and sz1: "hm_size hm1 \<le> hm_size hm + 1" using se(1,5,6) by auto
  have pos: "0 < hm_capacity hm" using hash_map_inv_index(3) [OF inv] .
  have set: "rcutils_hash_map_set (Some hm) k v al = (RCUTILS_RET_OK, Some hm2, al2)"
    using e g by (simp add: rcutils_hash_map_set_def)
  from hash_map_check_and_grow_map_cases [OF inv1 g]
  consider (below) "hm_size hm1 < load_threshold (hm_capacity hm1)" "ret = RCUTILS_RET_OK" "hm2 = hm1"
    | (failed) "load_threshold (hm_capacity hm1) \<le> hm_size hm1" "ret \<noteq> RCUTILS_RET_OK"
    | (grown) nm where "load_threshold (hm_capacity hm1) \<le> hm_size hm1" "ret = RCUTILS_RET_OK"
        "hm2 = hm1\<lparr>hm_map := nm, hm_capacity := 2 * hm_capacity hm1\<rparr>"
        "length nm = 2 * hm_capacity hm1"
        "\<forall>j < 2 * hm_capacity hm1. bucket_entries (nm ! j) =
           filter (\<lambda>e. unat (hashed_key e) mod (2 * hm_capacity hm1) = j) (all_entries (hm_map hm1))"
    by blast
  then show ?thesis
  proof cases
    case below
    with set load_threshold_below [OF below(1)] show ?thesis by simp
  next
    case failed
    with set show ?thesis by simp
  next
    case grown
    have "4 * hm_size hm1 \<le> 3 * (2 * hm_capacity hm1)"
      using grown(1) sz1 lf pos unfolding cap1 by (rule load_threshold_grown)
    with set grown show ?thesis by simp
  qed
qed

theorem hash_map_set_load_factor_witness:
  "hash_map_inv hm_fresh \<and>
   4 * hm_size hm_fresh \<le> 3 * hm_capacity hm_fresh \<and>
   fst (rcutils_hash_map_set_entry hm_fresh ''a'' 10 []) = RCUTILS_RET_OK \<and>
   load_threshold (hm_capacity (fst (snd (rcutils_hash_map_set_entry hm_fresh ''a'' 10 []))))
     \<le> hm_size (fst (snd (rcutils_hash_map_set_entry hm_fresh ''a'' 10 []))) \<and>
   fst (rcutils_hash_map_set (Some hm_fresh) ''a'' 10 []) = RCUTILS_RET_OK \<and>
   rcutils_hash_map_get_size (fst (snd (rcutils_hash_map_set (Some hm_fresh) ''a'' 10 [])))
     = (RCUTILS_RET_OK, 1) \<and>
   rcutils_hash_map_get_capacity (fst (snd (rcutils_hash_map_set (Some hm_fresh) ''a'' 10 [])))
     = (RCUTILS_RET_OK, 4)"
proof -
  let ?hm1 = "\<lparr>hm_map = [Some \<lparr>al_capacity = 2,
                   al_list = [\<lparr>hashed_key = 177670, entry_key = ''a'', entry_value = 10\<rparr>],
                   al_data_size = 8\<rparr>, None],
            hm_capacity = 2, hm_size = 1, hm_key_size = 8, hm_data_size = 4,
            hm_key_hashing_func = rcutils_hash_map_string_hash_func,
            hm_key_cmp_func = rcutils_hash_map_string_cmp_func\<rparr>"
  have lf: "4 * hm_size hm_fresh \<le> 3 * hm_capacity hm_fresh" by (simp add: hm_fresh_eval)
  have e: "rcutils_hash_map_set_entry hm_fresh ''a'' 10 [] = (RCUTILS_RET_OK, ?hm1, [])"
    unfolding hm_fresh_eval by (simp add: hash_map_eval)
  have g: "hash_map_check_and_grow_map ?hm1 []
             = (RCUTILS_RET_OK, the (fst (snd (rcutils_hash_map_set (Some hm_fresh) ''a'' 10 []))), [])"
    unfolding hm_fresh_set_a by (simp add: hash_map_eval)
  from hash_map_set_load_factor [OF hm_fresh_inv lf e g] hm_fresh_inv lf
  show ?thesis
    by (simp add: e hm_fresh_set_a rcutils_hash_map_get_size_def rcutils_hash_map_get_capacity_def
        load_threshold_def)
qed

subsection \<open>Logger severities: the keys of the severity map\<close>














subsection \<open>Logger severities: removing an entry and walking the map\<close>













subsection \<open>Logger severities: \<open>rcutils_logging_set_logger_level\<close>\<close>









subsection \<open>Logger severities: \<open>rcutils_logging_get_logger_effective_level\<close>\<close>

















subsection \<open>Logger severities: the example runs\<close>
























section \<open>The logging claims\<close>







declare rcutils_reverse_str_loop.simps [simp del]
declare rcutils_convert_loop.simps [simp del]
declare decimal_digits.simps [simp del]

subsection \<open>Error handling\<close>

lemma rcutils_copy_string_eq:
  assumes "1 \<le> dst_size"
  shows "rcutils_copy_string dst_size src =
           (take (dst_size - 1) (cstr src), min (strlen src) (dst_size - 1))"
proof (cases "strlen src \<ge> dst_size")
  case True
  then have "take (dst_size - 1) src = take (dst_size - 1) (cstr src)"
    unfolding strlen_def cstr_def by (intro take_takeWhile_le) simp
  with True assms show ?thesis
    by (simp add: rcutils_copy_string_def Let_def min_def)
next
  case False
  then have le: "strlen src \<le> dst_size - 1" by simp
  have "take (strlen src) src = take (strlen src) (cstr src)"
    unfolding strlen_def cstr_def by (intro take_takeWhile_le) simp
  also have "\<dots> = take (dst_size - 1) (cstr src)"
    using le by (simp add: strlen_def)
  finally show ?thesis using False le
    by (simp add: rcutils_copy_string_def Let_def min_def)
qed

lemma reverse_loop_middle:
  "length a = i \<Longrightarrow> length a + length m = j + 1 \<Longrightarrow>
   rcutils_reverse_str_loop i j (a @ m @ b) = a @ rev m @ b"
proof (induction "length m" arbitrary: a m b i j rule: less_induct)
  case less
  show ?case
  proof (cases "i < j")
    case False
    with less.prems have "length m \<le> 1" by simp
    then have "rev m = m" by (cases m) auto
    with False show ?thesis by (subst rcutils_reverse_str_loop.simps) simp
  next
    case True
    with less.prems have len: "2 \<le> length m" by simp
    then obtain x m0 where m0: "m = x # m0" by (cases m) auto
    with len have "m0 \<noteq> []" by auto
    then obtain m' y where m': "m0 = m' @ [y]" by (metis rev_exhaust)
    have m: "m = x # m' @ [y]" using m0 m' by simp
    have j: "j = length a + length m' + 1" using less.prems m by simp
    have upd: "(a @ m @ b)[i := (a @ m @ b) ! j, j := (a @ m @ b) ! i]
                 = (a @ [y]) @ m' @ ([x] @ b)"
      using less.prems(1) j m
      by (simp add: list_update_append nth_append)
    have "rcutils_reverse_str_loop i j (a @ m @ b)
            = rcutils_reverse_str_loop (i + 1) (j - 1) ((a @ [y]) @ m' @ ([x] @ b))"
      using True upd by (subst rcutils_reverse_str_loop.simps) simp
    also have "\<dots> = (a @ [y]) @ rev m' @ ([x] @ b)"
      by (rule less.hyps) (use m j less.prems in auto)
    finally show ?thesis using m by simp
  qed
qed

lemma rcutils_reverse_str_rev:
  "rcutils_reverse_str s (length s) = rev s"
proof (cases "s = []")
  case True
  then show ?thesis by (simp add: rcutils_reverse_str_def)
next
  case False
  have "rcutils_reverse_str_loop 0 (length s - 1) ([] @ s @ []) = [] @ rev s @ []"
    by (rule reverse_loop_middle) (use False in auto)
  with False show ?thesis by (simp add: rcutils_reverse_str_def)
qed



lemma rcutils_convert_loop_rev_decimal:
  "number \<noteq> 0 \<Longrightarrow> rcutils_convert_loop number = rev (decimal_digits (unat number))"
proof (induction number rule: rcutils_convert_loop.induct)
  case (1 number)
  have digit: "unat (number mod 10 + 48) = unat number mod 10 + 48"
  proof -
    have "unat (number mod 10) = unat number mod 10" by (simp add: unat_mod)
    moreover have "unat number mod 10 + 48 < 2 ^ 64"
      by (rule less_trans [where y = 58]) simp_all
    ultimately show ?thesis by (simp add: unat_add_lem [THEN iffD1])
  qed
  have divn: "unat (number div 10) = unat number div 10" by (simp add: unat_div)
  have zero_iff: "number div 10 = 0 \<longleftrightarrow> unat number < 10"
    using divn by (metis div_eq_0_iff unat_eq_zero zero_neq_numeral)
  show ?case
  proof (cases "number div 10 = 0")
    case True
    then have lt: "unat number < 10" using zero_iff by simp
    have "rcutils_convert_loop number = [char_of (unat (number mod 10 + 48))]"
      using 1 True by (subst rcutils_convert_loop.simps) (simp add: rcutils_convert_loop.simps [of 0])
    with lt digit show ?thesis by (subst decimal_digits.simps) simp
  next
    case False
    then have ge: "\<not> unat number < 10" using zero_iff by simp
    have "rcutils_convert_loop number
            = char_of (unat (number mod 10 + 48)) # rcutils_convert_loop (number div 10)"
      using 1 by (subst rcutils_convert_loop.simps) simp
    also have "rcutils_convert_loop (number div 10) = rev (decimal_digits (unat (number div 10)))"
      using 1 False by simp
    finally show ?thesis using ge digit divn
      by (subst decimal_digits.simps) simp
  qed
qed

lemma length_decimal_digits: "n < 10 ^ k \<Longrightarrow> 0 < k \<Longrightarrow> length (decimal_digits n) \<le> k"
proof (induction n arbitrary: k rule: decimal_digits.induct)
  case (1 n)
  show ?case
  proof (cases "n < 10")
    case True
    with 1 show ?thesis by (subst decimal_digits.simps) simp
  next
    case False
    then obtain k' where k: "k = Suc k'" using 1(3) by (cases k) auto
    with False 1(2) have "0 < k'" by (cases k') auto
    moreover have "n div 10 < 10 ^ k'" using 1(2) k by (simp add: less_mult_imp_div_less)
    ultimately have "length (decimal_digits (n div 10)) \<le> k'" using 1(1) False by simp
    with False k show ?thesis by (subst decimal_digits.simps) simp
  qed
qed

lemma decimal_digits_no_zero_char: "CHR 0x00 \<notin> set (decimal_digits n)"
proof (induction n rule: decimal_digits.induct)
  case (1 n)
  have d: "\<And>m::nat. m < 10 \<Longrightarrow> char_of (m + 48) \<noteq> CHR 0x00"
  proof
    fix m :: nat assume "m < 10" and "char_of (m + 48) = CHR 0x00"
    then have "of_char (char_of (m + 48)) = (0::nat)" by simp
    with \<open>m < 10\<close> show False by simp
  qed
  show ?case
  proof (cases "n < 10")
    case True
    then show ?thesis using d [of n] by (subst decimal_digits.simps) (simp add: eq_commute)
  next
    case False
    then show ?thesis using 1 d [of "n mod 10"]
      by (subst decimal_digits.simps) (simp add: eq_commute)
  qed
qed

lemma convert_uint64_decimal:
  "rcutils_convert_uint64_t_into_c_str number = decimal_digits (unat number)"
proof (cases "number = 0")
  case True
  have "decimal_digits 0 = ''0''" by code_simp
  with True show ?thesis by (simp add: rcutils_convert_uint64_t_into_c_str_def)
next
  case False
  let ?b = "rcutils_convert_loop number"
  have b: "?b = rev (decimal_digits (unat number))"
    using False by (rule rcutils_convert_loop_rev_decimal)
  have "unat number < 10 ^ 20"
    by (rule less_trans [OF unsigned_less]) simp
  then have len: "length ?b \<le> 20" using b length_decimal_digits [of "unat number" 20] by simp
  have "CHR 0x00 \<notin> set ?b" using b decimal_digits_no_zero_char by simp
  then have "cstr ?b = ?b" by (auto simp: cstr_def)
  then have "strnlen ?b 21 = length ?b" using len by (simp add: strnlen_def strlen_def)
  then have "rcutils_convert_uint64_t_into_c_str number = rcutils_reverse_str ?b (length ?b)"
    using False by (simp add: rcutils_convert_uint64_t_into_c_str_def Let_def)
  also have "\<dots> = rev ?b" by (rule rcutils_reverse_str_rev)
  finally show ?thesis using b by simp
qed


lemma length_decimal_digits_uint64: "length (decimal_digits (unat (number :: 64 word))) \<le> 20"
proof -
  have "unat number < 10 ^ 20"
    by (rule less_trans [OF unsigned_less]) simp
  then show ?thesis using length_decimal_digits [of "unat number" 20] by simp
qed

lemma rcutils_copy_string_fits:
  "cstr s = s \<Longrightarrow> length s < n \<Longrightarrow> rcutils_copy_string n s = (s, length s)"
  by (simp add: rcutils_copy_string_eq strlen_def)

lemma format_error_string_eq:
  assumes m: "length (message es) \<le> 767" "cstr (message es) = message es"
      and f: "length (file_str es) \<le> 228" "cstr (file_str es) = file_str es"
  shows "rcutils_format_error_string es =
           message es @ '', at '' @ file_str es @ '':'' @ decimal_digits (unat (line_number es))"
proof -
  let ?d = "decimal_digits (unat (line_number es))"
  have d: "cstr ?d = ?d" "length ?d \<le> 20"
    using decimal_digits_no_zero_char [of "unat (line_number es)"]
    by (auto simp: cstr_def length_decimal_digits_uint64)
  have k: "cstr '', at '' = '', at ''" "cstr '':'' = '':''"
    by (simp_all add: cstr_def)
  show ?thesis
    using m f d k
    by (simp add: rcutils_format_error_string_def Let_def rcutils_copy_string_fits
        convert_uint64_decimal)
qed

text \<open>
  C4. After \<open>rcutils_set_error_state(message, file, line)\<close>, whatever the thread's error
  state was before, \<open>rcutils_get_error_string()\<close> returns the message cut to 767 bytes,
  then \<open>", at "\<close>, the file name cut to 228 bytes, \<open>":"\<close> and the line number in
  unsigned decimal digits; with its terminator the string takes at most 1024 bytes.
\<close>

theorem get_error_string_after_set_error_state:
  "fst (rcutils_get_error_string (rcutils_set_error_state (Some msg) (Some fl) line tls)) =
     take 767 (cstr msg) @ '', at '' @ take 228 (cstr fl) @ '':'' @ decimal_digits (unat line)
   \<and> length (fst (rcutils_get_error_string
                    (rcutils_set_error_state (Some msg) (Some fl) line tls))) + 1 \<le> 1024"
proof -
  let ?es = "\<lparr>message = take 767 (cstr msg), file_str = take 228 (cstr fl), line_number = line\<rparr>"
  have "fst (rcutils_get_error_string (rcutils_set_error_state (Some msg) (Some fl) line tls))
          = rcutils_format_error_string ?es"
    by (simp add: rcutils_set_error_state_def rcutils_get_error_string_def Let_def
        rcutils_copy_string_eq)
  moreover have "rcutils_format_error_string ?es =
      take 767 (cstr msg) @ '', at '' @ take 228 (cstr fl) @ '':'' @ decimal_digits (unat line)"
    using format_error_string_eq [of ?es] by (simp add: cstr_take)
  ultimately show ?thesis
    using length_decimal_digits_uint64 [of line] by simp
qed

text \<open>
  The theorem at the first half of scenario S1 of the specification: message \<open>"A"\<close>, file
  \<open>"f.c"\<close>, line 1, on a thread with no error set.
\<close>

theorem get_error_string_after_set_error_state_witness:
  "fst (rcutils_get_error_string
          (rcutils_set_error_state (Some ''A'') (Some ''f.c'') 1 error_handling_tls_initial))
     = ''A, at f.c:1''"
proof -
  have "decimal_digits (unat (1 :: 64 word)) = ''1''" by code_simp
  then show ?thesis
    using get_error_string_after_set_error_state
            [of "''A''" "''f.c''" 1 error_handling_tls_initial]
    by (simp add: cstr_def)
qed

text \<open>
  \<open>decimal_digits\<close> is the decimal notation: its characters are digits, it has no leading
  zero, and it denotes the number.
\<close>

lemma decimal_digits_value: "digits_value (decimal_digits n) = n"
proof (induction n rule: decimal_digits.induct)
  case (1 n)
  show ?case
  proof (cases "n < 10")
    case True
    then show ?thesis by (subst decimal_digits.simps) (simp add: digits_value_def)
  next
    case False
    with 1 have "digits_value (decimal_digits (n div 10)) = n div 10" by simp
    with False show ?thesis
      by (subst decimal_digits.simps) (simp add: digits_value_def)
  qed
qed

lemma decimal_digits_are_digits:
  "c \<in> set (decimal_digits n) \<Longrightarrow> 48 \<le> (of_char c :: nat) \<and> (of_char c :: nat) \<le> 57"
proof (induction n rule: decimal_digits.induct)
  case (1 n)
  show ?case
  proof (cases "n < 10")
    case True
    with 1(2) show ?thesis by (subst (asm) decimal_digits.simps) auto
  next
    case False
    have "n mod 10 + 48 < 256" by (rule less_trans [where y = 58]) simp_all
    with False 1 show ?thesis by (subst (asm) decimal_digits.simps) auto
  qed
qed

lemma decimal_digits_no_padding:
  "0 < n \<Longrightarrow> hd (decimal_digits n) \<noteq> CHR ''0''"
proof (induction n rule: decimal_digits.induct)
  case (1 n)
  show ?case
  proof (cases "n < 10")
    case True
    have "of_char (char_of (n + 48)) \<noteq> (of_char CHR ''0'' :: nat)" using True 1(2) by simp
    then have "char_of (n + 48) \<noteq> CHR ''0''" by metis
    with True show ?thesis by (subst decimal_digits.simps) simp
  next
    case False
    then have pos: "0 < n div 10" by simp
    have ne: "decimal_digits (n div 10) \<noteq> []" by (subst decimal_digits.simps) simp
    from False pos 1 have "hd (decimal_digits (n div 10)) \<noteq> CHR ''0''" by simp
    with False ne show ?thesis by (subst decimal_digits.simps) simp
  qed
qed

end

